theory Spec2Isabelle
  imports Complex_Main "HOL-Library.Log_Nat"
begin

section \<open>Python values and exceptions used by \<open>folium/utilities.py\<close>\<close>

text \<open>
  The module raises three kinds of exception on the paths modelled here: an index out of
  range, a value that cannot be converted or found (also the explicit \<open>raise ValueError\<close> of
  \<open>color_brewer\<close>), and a division or modulo by zero. A function that may raise returns
  \<open>error + 'a\<close>, with \<open>Inl\<close> for the exception.
\<close>

datatype error = IndexError | ValueError | ZeroDivisionError

fun bind :: "error + 'a \<Rightarrow> ('a \<Rightarrow> error + 'b) \<Rightarrow> error + 'b" where
  "bind (Inl e) f = Inl e"
| "bind (Inr v) f = f v"

text \<open>A list comprehension whose body may raise: the first exception ends it.\<close>

fun map_err :: "('a \<Rightarrow> error + 'b) \<Rightarrow> 'a list \<Rightarrow> error + 'b list" where
  "map_err f [] = Inr []"
| "map_err f (x # xs) = bind (f x) (\<lambda>y. bind (map_err f xs) (\<lambda>ys. Inr (y # ys)))"

text \<open>\<open>seq[i]\<close> for an integer \<open>i\<close>: a negative index counts from the end.\<close>

definition getitem :: "'a list \<Rightarrow> int \<Rightarrow> error + 'a" where
  "getitem seq i =
     (if 0 \<le> i \<and> i < int (length seq) then Inr (seq ! nat i)
      else if i < 0 \<and> - int (length seq) \<le> i then Inr (seq ! nat (i + int (length seq)))
      else Inl IndexError)"

subsection \<open>Numbers\<close>

text \<open>
  A Python number is an unbounded integer or a float. A float is an IEEE 754 binary64
  value, modelled by the rational it denotes; every float operation is the exact operation
  followed by rounding to the nearest value with a 53 bit significand, ties to even
  (\<open>round_double\<close>). The exponent range is not modelled: overflow to infinity and gradual
  underflow need magnitudes above \<open>2^1023\<close> or below \<open>2^-1022\<close>, far outside the colour
  channels, list lengths and label counts this module works on.
\<close>

datatype pynum = PInt int | PFloat rat

definition round_half_even :: "rat \<Rightarrow> int" where
  "round_half_even x =
     (let f = \<lfloor>x\<rfloor>; d = x - of_int f
      in if d < 1 / 2 then f else if 1 / 2 < d then f + 1
         else if even f then f else f + 1)"

text \<open>For \<open>x > 0\<close>, the integer \<open>e\<close> with \<open>2^e \<le> x < 2^(e+1)\<close>.\<close>

definition ilog2 :: "rat \<Rightarrow> int" where
  "ilog2 x =
     (let k = bitlen (fst (quotient_of x)) - bitlen (snd (quotient_of x))
      in if 2 powi k \<le> x then k else k - 1)"

definition round_double :: "rat \<Rightarrow> rat" where
  "round_double x =
     (if x = 0 then 0
      else let e = ilog2 \<bar>x\<bar> - 52
           in of_int (round_half_even (x / 2 powi e)) * 2 powi e)"

text \<open>\<open>float(v)\<close>, and the implicit conversion of an integer operand of a float operation.\<close>

fun py_float :: "pynum \<Rightarrow> rat" where
  "py_float (PInt i) = round_double (of_int i)"
| "py_float (PFloat x) = x"

text \<open>\<open>int(v)\<close> truncates a float towards zero.\<close>

definition trunc :: "rat \<Rightarrow> int" where
  "trunc x = (if 0 \<le> x then \<lfloor>x\<rfloor> else \<lceil>x\<rceil>)"

fun py_int :: "pynum \<Rightarrow> int" where
  "py_int (PInt i) = i"
| "py_int (PFloat x) = trunc x"

fun py_add :: "pynum \<Rightarrow> pynum \<Rightarrow> pynum" where
  "py_add (PInt a) (PInt b) = PInt (a + b)"
| "py_add v w = PFloat (round_double (py_float v + py_float w))"

fun py_sub :: "pynum \<Rightarrow> pynum \<Rightarrow> pynum" where
  "py_sub (PInt a) (PInt b) = PInt (a - b)"
| "py_sub v w = PFloat (round_double (py_float v - py_float w))"

fun py_mul :: "pynum \<Rightarrow> pynum \<Rightarrow> pynum" where
  "py_mul (PInt a) (PInt b) = PInt (a * b)"
| "py_mul v w = PFloat (round_double (py_float v * py_float w))"

text \<open>
  \<open>v / w\<close> under \<open>from __future__ import division\<close>: always a float. The quotient of two
  integers is rounded once, from the exact quotient.
\<close>

fun py_truediv :: "pynum \<Rightarrow> pynum \<Rightarrow> error + pynum" where
  "py_truediv (PInt a) (PInt b) =
     (if b = 0 then Inl ZeroDivisionError
      else Inr (PFloat (round_double (of_int a / of_int b))))"
| "py_truediv v w =
     (if py_float w = 0 then Inl ZeroDivisionError
      else Inr (PFloat (round_double (py_float v / py_float w))))"

text \<open>
  \<open>v % w\<close>. On integers the result has the sign of the divisor, as \<open>mod\<close> on \<open>int\<close> has.
  On floats the C function \<open>fmod\<close> gives the exact remainder with the sign of the dividend,
  and the divisor is added (a rounded addition) when the signs differ.
\<close>

definition fmod :: "rat \<Rightarrow> rat \<Rightarrow> rat" where
  "fmod x y = x - y * of_int (trunc (x / y))"

definition float_rem :: "rat \<Rightarrow> rat \<Rightarrow> rat" where
  "float_rem x y =
     (let m = fmod x y
      in if m \<noteq> 0 \<and> ((y < 0) \<noteq> (m < 0)) then round_double (m + y) else m)"

fun py_mod :: "pynum \<Rightarrow> pynum \<Rightarrow> error + pynum" where
  "py_mod (PInt a) (PInt b) =
     (if b = 0 then Inl ZeroDivisionError else Inr (PInt (a mod b)))"
| "py_mod v w =
     (if py_float w = 0 then Inl ZeroDivisionError
      else Inr (PFloat (float_rem (py_float v) (py_float w))))"

subsection \<open>Strings\<close>

text \<open>
  A string of Python 3 is a sequence of Unicode code points. A character is modelled by its
  code point, and \<open>ustr\<close> gives the Python string of a literal.

  \<open>int(s)\<close> on a one character string succeeds exactly on the characters that have a decimal
  digit value and raises \<open>ValueError\<close> on every other one. These are the ASCII digits and
  the digits of the other scripts: in the Unicode database of the interpreter (version 14),
  66 sets of ten consecutive code points, each in ascending order of value.
  \<open>decimal_zeros\<close> lists the code point of the zero of each set.
\<close>

type_synonym pystr = "nat list"

definition ustr :: "string \<Rightarrow> pystr" where
  "ustr s = map of_char s"

definition decimal_zeros :: "nat list" where
  "decimal_zeros =
    [48, 1632, 1776, 1984, 2406, 2534, 2662, 2790, 2918, 3046, 3174, 3302, 3430, 3558,
     3664, 3792, 3872, 4160, 4240, 6112, 6160, 6470, 6608, 6784, 6800, 6992, 7088, 7232,
     7248, 42528, 43216, 43264, 43472, 43504, 43600, 44016, 65296, 66720, 68912, 69734,
     69872, 69942, 70096, 70384, 70736, 70864, 71248, 71360, 71472, 71904, 72016, 72784,
     73040, 73120, 92768, 92864, 93008, 120782, 120792, 120802, 120812, 120822, 123200,
     123632, 125264, 130032]"

definition decimal_digit :: "nat \<Rightarrow> nat option" where
  "decimal_digit c =
     map_option (\<lambda>z. c - z) (find (\<lambda>z. z \<le> c \<and> c < z + 10) decimal_zeros)"

definition int_of_char :: "nat \<Rightarrow> error + int" where
  "int_of_char c =
     (case decimal_digit c of Some v \<Rightarrow> Inr (int v) | None \<Rightarrow> Inl ValueError)"

text \<open>\<open>s.index(c)\<close> for a one character string \<open>c\<close>.\<close>

fun str_index :: "pystr \<Rightarrow> nat \<Rightarrow> error + int" where
  "str_index [] c = Inl ValueError"
| "str_index (x # xs) c =
     (if x = c then Inr 0 else bind (str_index xs c) (\<lambda>k. Inr (k + 1)))"

text \<open>\<open>str(n)\<close> for an integer \<open>n\<close>: ASCII digits, after a minus sign for a negative one.\<close>

fun str_nat :: "nat \<Rightarrow> pystr" where
  "str_nat n =
     (if n < 10 then [48 + n]
      else str_nat (n div 10) @ [48 + n mod 10])"

definition str_int :: "int \<Rightarrow> pystr" where
  "str_int n = (if n < 0 then ustr ''-'' @ str_nat (nat (- n)) else str_nat (nat n))"

section \<open>The hex/RGB codec\<close>

text \<open>
  \<open>rgb_to_hex\<close>, with its two nested helpers. The channel is divided by 16 with true
  division and the quotient truncated; the remainder is truncated as well.
\<close>

definition numeric_to_indhex :: "int \<Rightarrow> error + pystr" where
  "numeric_to_indhex mathval =
     (if mathval < 10 then Inr (str_int mathval)
      else bind (getitem (ustr ''ABCDEF'') (mathval - 10)) (\<lambda>c. Inr [c]))"

definition colorval_to_hexval :: "pynum \<Rightarrow> error + pystr" where
  "colorval_to_hexval cval =
     bind (py_truediv cval (PInt 16)) (\<lambda>q.
     bind (py_mod cval (PInt 16)) (\<lambda>m.
     bind (numeric_to_indhex (py_int q)) (\<lambda>hi.
     bind (numeric_to_indhex (py_int m)) (\<lambda>lo. Inr (hi @ lo)))))"

definition rgb_to_hex :: "pynum list \<Rightarrow> error + pystr" where
  "rgb_to_hex color_code =
     bind (map_err colorval_to_hexval color_code) (\<lambda>hs. Inr (ustr ''#'' @ concat hs))"

text \<open>
  \<open>hex_to_rgb\<close>, with its two nested helpers. A character is first tried with \<open>int\<close>, then
  looked up in \<open>'ABCDEF'\<close>; the three pairs are slices, which never raise, and characters
  after the sixth are never read.
\<close>

definition indhex_to_numeric :: "nat \<Rightarrow> error + int" where
  "indhex_to_numeric letterval =
     (case int_of_char letterval of
        Inr v \<Rightarrow> Inr v
      | Inl e \<Rightarrow> bind (str_index (ustr ''ABCDEF'') letterval) (\<lambda>k. Inr (k + 10)))"

definition hexval_to_colorval :: "pystr \<Rightarrow> error + pynum" where
  "hexval_to_colorval hval =
     bind (getitem hval 0) (\<lambda>h0.
     bind (indhex_to_numeric h0) (\<lambda>d.
     bind (getitem hval 1) (\<lambda>h1.
     bind (indhex_to_numeric h1) (\<lambda>r. Inr (PInt (d * 16 + r))))))"

definition hex_to_rgb :: "pystr \<Rightarrow> error + pynum list" where
  "hex_to_rgb color_code =
     bind (getitem color_code 0) (\<lambda>c0.
       let code = (if ustr ''#'' = [c0] then drop 1 color_code else color_code);
           separated_hexes = map (\<lambda>i. take 2 (drop (i * 2) code)) [0..<3]
       in map_err hexval_to_colorval separated_hexes)"

subsection \<open>Well-formed hex colours\<close>

text \<open>
  The sixteen characters \<open>rgb_to_hex\<close> can emit for a nibble, in order of value; the
  characters \<open>hex_to_rgb\<close> converts, which are the decimal digits of every script and the
  upper case letters \<open>A\<close> to \<open>F\<close>; and the input of \<open>hex_to_rgb\<close> after its optional
  leading \<open>#\<close>.
\<close>

definition hexdigits :: pystr where
  "hexdigits = ustr ''0123456789ABCDEF''"

definition is_hex_upper :: "nat \<Rightarrow> bool" where
  "is_hex_upper c \<longleftrightarrow> c \<in> set hexdigits"

definition accepted :: "nat \<Rightarrow> bool" where
  "accepted c \<longleftrightarrow> decimal_digit c \<noteq> None \<or> c \<in> set (ustr ''ABCDEF'')"

definition strip_hash :: "pystr \<Rightarrow> pystr" where
  "strip_hash s = (case s of [] \<Rightarrow> [] | c # cs \<Rightarrow> if ustr ''#'' = [c] then cs else s)"

text \<open>The value of a converted character, and 0 for any other.\<close>

definition hex_value :: "nat \<Rightarrow> int" where
  "hex_value c = (case indhex_to_numeric c of Inr v \<Rightarrow> v | Inl e \<Rightarrow> 0)"

text \<open>A well-formed hex colour: \<open>#\<close> and exactly six of the sixteen characters.\<close>

definition wf_hex :: "pystr \<Rightarrow> bool" where
  "wf_hex h \<longleftrightarrow>
     (case h of [] \<Rightarrow> False
      | c # ds \<Rightarrow> ustr ''#'' = [c] \<and> length ds = 6 \<and> list_all is_hex_upper ds)"

section \<open>The linear gradient\<close>

text \<open>
  \<open>_scale\<close>: \<open>float(i) / (length - 1)\<close> raises on a length of 1; the caller passes 765.
\<close>

definition scale :: "pynum \<Rightarrow> pynum \<Rightarrow> int \<Rightarrow> int \<Rightarrow> error + pynum" where
  "scale start finish len i =
     bind (py_truediv (PFloat (py_float (PInt i))) (PInt (len - 1))) (\<lambda>fraction.
       let raynge = py_sub finish start
       in Inr (py_add start (py_mul fraction raynge)))"

text \<open>
  The inner loop for one pair of consecutive control points: 765 tuples. A control point is
  a sequence; reading a channel it does not have raises \<open>IndexError\<close>.
\<close>

definition nInterpolate :: int where
  "nInterpolate = 765"

definition interpolate_pair ::
    "pynum list \<Rightarrow> pynum list \<Rightarrow> int \<Rightarrow> error + (pynum \<times> pynum \<times> pynum)" where
  "interpolate_pair start end index =
     bind (getitem start 0) (\<lambda>s0. bind (getitem end 0) (\<lambda>e0.
     bind (scale s0 e0 nInterpolate index) (\<lambda>r.
     bind (getitem start 1) (\<lambda>s1. bind (getitem end 1) (\<lambda>e1.
     bind (scale s1 e1 nInterpolate index) (\<lambda>g.
     bind (getitem start 2) (\<lambda>s2. bind (getitem end 2) (\<lambda>e2.
     bind (scale s2 e2 nInterpolate index) (\<lambda>b. Inr (r, g, b))))))))))"

text \<open>
  The outer loop over \<open>zip(rgbList[:-1], rgbList[1:])\<close>, appending every tuple to one list.
\<close>

definition all_colors :: "pynum list list \<Rightarrow> error + (pynum \<times> pynum \<times> pynum) list" where
  "all_colors rgbList =
     bind (map_err (\<lambda>(start, end). map_err (interpolate_pair start end) [0..nInterpolate - 1])
             (zip (butlast rgbList) (drop 1 rgbList)))
       (\<lambda>segments. Inr (concat segments))"

text \<open>
  The second loop picks \<open>nColors\<close> entries. \<open>float(counter) / (nColors - 1)\<close> raises for
  \<open>nColors = 1\<close>; the index is truncated, and reading \<open>allColors\<close> raises when it is empty.
\<close>

definition pick :: "(pynum \<times> pynum \<times> pynum) list \<Rightarrow> int \<Rightarrow> int
    \<Rightarrow> error + (pynum \<times> pynum \<times> pynum)" where
  "pick allColors nColors counter =
     bind (py_truediv (PFloat (py_float (PInt counter))) (PInt (nColors - 1))) (\<lambda>fraction.
       let index = py_int (py_mul fraction (PInt (int (length allColors) - 1)))
       in getitem allColors index)"

definition linear_gradient ::
    "pynum list list \<Rightarrow> int \<Rightarrow> error + (pynum \<times> pynum \<times> pynum) list" where
  "linear_gradient rgbList nColors =
     bind (all_colors rgbList) (\<lambda>allColors.
       map_err (pick allColors nColors) [0..nColors - 1])"

text \<open>The number a Python value denotes: \<open>237 == 237.0\<close> holds in Python.\<close>

fun py_val :: "pynum \<Rightarrow> rat" where
  "py_val (PInt i) = of_int i"
| "py_val (PFloat x) = x"

fun channels :: "pynum \<times> pynum \<times> pynum \<Rightarrow> pynum list" where
  "channels (r, g, b) = [r, g, b]"

text \<open>
  A control point of the gradient: three channels, each an integer or a float. A float is a
  double, so rounding leaves its value as it is.
\<close>

fun is_number :: "pynum \<Rightarrow> bool" where
  "is_number (PInt i) \<longleftrightarrow> True"
| "is_number (PFloat x) \<longleftrightarrow> round_double x = x"

definition rgb_point :: "pynum list \<Rightarrow> bool" where
  "rgb_point p \<longleftrightarrow> length p = 3 \<and> list_all is_number p"

text \<open>
  A control point with three integer channels, each small enough for it and for the
  difference of two of them to convert to a float without rounding (every 8 bit channel is).
\<close>

fun exact_int :: "pynum \<Rightarrow> bool" where
  "exact_int (PInt i) \<longleftrightarrow> \<bar>i\<bar> < 2 ^ 52"
| "exact_int (PFloat x) \<longleftrightarrow> False"

definition int_rgb :: "pynum list \<Rightarrow> bool" where
  "int_rgb p \<longleftrightarrow> length p = 3 \<and> list_all exact_int p"

text \<open>
  The difference \<open>finish - start\<close> of \<open>_scale\<close> before it is rounded: the difference of two
  integers is an integer, any other one is a float subtraction.
\<close>

fun raw_range :: "pynum \<Rightarrow> pynum \<Rightarrow> rat" where
  "raw_range (PInt a) (PInt b) = of_int (b - a)"
| "raw_range s f = py_float f - py_float s"

text \<open>A control point with three integer channels between 0 and 255.\<close>

fun byte_int :: "pynum \<Rightarrow> bool" where
  "byte_int (PInt i) \<longleftrightarrow> 0 \<le> i \<and> i \<le> 255"
| "byte_int (PFloat x) \<longleftrightarrow> False"

definition byte_rgb :: "pynum list \<Rightarrow> bool" where
  "byte_rgb p \<longleftrightarrow> length p = 3 \<and> list_all byte_int p"

section \<open>The colour scheme catalog\<close>

definition maximum_n :: int where
  "maximum_n = 253"

definition scheme_table :: "(pystr \<times> pystr list) list" where
  "scheme_table =
    [
     (ustr ''BuGn'', map ustr [''#EDF8FB'', ''#CCECE6'', ''#CCECE6'', ''#66C2A4'',
        ''#41AE76'', ''#238B45'', ''#005824'']),
     (ustr ''BuPu'', map ustr [''#EDF8FB'', ''#BFD3E6'', ''#9EBCDA'', ''#8C96C6'',
        ''#8C6BB1'', ''#88419D'', ''#6E016B'']),
     (ustr ''GnBu'', map ustr [''#F0F9E8'', ''#CCEBC5'', ''#A8DDB5'', ''#7BCCC4'',
        ''#4EB3D3'', ''#2B8CBE'', ''#08589E'']),
     (ustr ''OrRd'', map ustr [''#FEF0D9'', ''#FDD49E'', ''#FDBB84'', ''#FC8D59'',
        ''#EF6548'', ''#D7301F'', ''#990000'']),
     (ustr ''PuBu'', map ustr [''#F1EEF6'', ''#D0D1E6'', ''#A6BDDB'', ''#74A9CF'',
        ''#3690C0'', ''#0570B0'', ''#034E7B'']),
     (ustr ''PuBuGn'', map ustr [''#F6EFF7'', ''#D0D1E6'', ''#A6BDDB'', ''#67A9CF'',
        ''#3690C0'', ''#02818A'', ''#016450'']),
     (ustr ''PuRd'', map ustr [''#F1EEF6'', ''#D4B9DA'', ''#C994C7'', ''#DF65B0'',
        ''#E7298A'', ''#CE1256'', ''#91003F'']),
     (ustr ''RdPu'', map ustr [''#FEEBE2'', ''#FCC5C0'', ''#FA9FB5'', ''#F768A1'',
        ''#DD3497'', ''#AE017E'', ''#7A0177'']),
     (ustr ''YlGn'', map ustr [''#FFFFCC'', ''#D9F0A3'', ''#ADDD8E'', ''#78C679'',
        ''#41AB5D'', ''#238443'', ''#005A32'']),
     (ustr ''YlGnBu'', map ustr [''#FFFFCC'', ''#C7E9B4'', ''#7FCDBB'', ''#41B6C4'',
        ''#1D91C0'', ''#225EA8'', ''#0C2C84'']),
     (ustr ''YlOrBr'', map ustr [''#FFFFD4'', ''#FEE391'', ''#FEC44F'', ''#FE9929'',
        ''#EC7014'', ''#CC4C02'', ''#8C2D04'']),
     (ustr ''YlOrRd'', map ustr [''#FFFFB2'', ''#FED976'', ''#FEB24C'', ''#FD8D3C'',
        ''#FC4E2A'', ''#E31A1C'', ''#B10026''])]"

definition schemes :: "pystr \<rightharpoonup> pystr list" where
  "schemes = map_of scheme_table"

text \<open>
  \<open>color_brewer\<close>. The size check comes first; above six colours an unknown name gives
  \<open>None\<close> and a known one is decoded, interpolated and encoded again; up to six colours the
  result is the dictionary lookup itself.
\<close>

definition color_brewer :: "pystr \<Rightarrow> int \<Rightarrow> error + pystr list option" where
  "color_brewer color_code n =
     (if n > maximum_n then Inl ValueError
      else if n > 6 then
        (case schemes color_code of
           None \<Rightarrow> Inr None
         | Some hex_codes \<Rightarrow>
             bind (map_err hex_to_rgb hex_codes) (\<lambda>rgb_color_scheme.
             bind (linear_gradient rgb_color_scheme n) (\<lambda>gradient.
             bind (map_err (\<lambda>rgb_code. rgb_to_hex (channels rgb_code)) gradient)
               (\<lambda>color_scheme. Inr (Some color_scheme)))))
      else Inr (schemes color_code))"

section \<open>The legend tick scaler\<close>






section \<open>The quantile rounding helper\<close>

section \<open>Properties of rounding to a double\<close>

lemma quotient_of_pos:
  assumes "0 < x"
  shows "0 < fst (quotient_of x) \<and> 0 < snd (quotient_of x)
         \<and> x = of_int (fst (quotient_of x)) / of_int (snd (quotient_of x))"
proof -
  obtain a b where ab: "quotient_of x = (a, b)" by (cases "quotient_of x")
  have b: "0 < b" using ab by (rule quotient_of_denom_pos)
  have x: "x = of_int a / of_int b" using ab by (rule quotient_of_div)
  have "0 < a" using assms b x by (simp add: zero_less_divide_iff)
  with b x ab show ?thesis by simp
qed

lemma powi_two_le_iff: "(2::rat) powi a \<le> 2 powi b \<longleftrightarrow> a \<le> b"
proof
  assume "(2::rat) powi a \<le> 2 powi b"
  show "a \<le> b"
  proof (rule ccontr)
    assume "\<not> a \<le> b"
    then have "(2::rat) powi b < 2 powi a" by (intro power_int_strict_increasing) auto
    with \<open>(2::rat) powi a \<le> 2 powi b\<close> show False by simp
  qed
next
  assume "a \<le> b" then show "(2::rat) powi a \<le> 2 powi b"
    by (intro power_int_increasing) auto
qed

lemma powi_two_less_iff: "(2::rat) powi a < 2 powi b \<longleftrightarrow> a < b"
  using powi_two_le_iff [of b a] by (simp add: not_le [symmetric])

lemma bitlen_pow_bounds:
  assumes "0 < a"
  shows "(2::rat) powi (bitlen a - 1) \<le> of_int a" and "of_int a < (2::rat) powi bitlen a"
proof -
  from bitlen_bounds [OF assms]
  have lo: "2 ^ nat (bitlen a - 1) \<le> a" and hi: "a < 2 ^ nat (bitlen a)" by simp_all
  have ge1: "1 \<le> bitlen a" using assms bitlen_eq_zero_iff [of a] bitlen_nonneg [of a] by linarith
  have "(2::rat) powi (bitlen a - 1) = 2 ^ nat (bitlen a - 1)"
    using ge1 by (simp add: power_int_nonneg_exp)
  also have "\<dots> = of_int (2 ^ nat (bitlen a - 1))" by simp
  also have "\<dots> \<le> of_int a" using lo by (simp only: of_int_le_iff)
  finally show "(2::rat) powi (bitlen a - 1) \<le> of_int a" .
  have "(of_int a :: rat) < of_int (2 ^ nat (bitlen a))" using hi by (simp only: of_int_less_iff)
  also have "\<dots> = 2 powi bitlen a" using ge1 by (simp add: power_int_nonneg_exp)
  finally show "of_int a < (2::rat) powi bitlen a" .
qed

lemma ilog2_bounds:
  assumes "0 < x"
  shows "2 powi ilog2 x \<le> x" and "x < 2 powi (ilog2 x + 1)"
proof -
  define a where "a = fst (quotient_of x)"
  define b where "b = snd (quotient_of x)"
  define k where "k = bitlen a - bitlen b"
  from quotient_of_pos [OF assms] have a: "0 < a" and b: "0 < b" and x: "x = of_int a / of_int b"
    by (simp_all add: a_def b_def)
  note A = bitlen_pow_bounds [OF a] and B = bitlen_pow_bounds [OF b]
  have bpos: "(0::rat) < of_int b" using b by simp
  have "x * of_int b = of_int a" using x bpos by simp
  have lo: "2 powi (k - 1) \<le> x"
  proof -
    have "2 powi (k - 1) * of_int b \<le> 2 powi (k - 1) * (2::rat) powi bitlen b"
      using B(2) by (intro mult_left_mono) auto
    also have "\<dots> = 2 powi (bitlen a - 1)"
      by (simp add: k_def flip: power_int_add)
    also have "\<dots> \<le> of_int a" by (rule A(1))
    finally have "2 powi (k - 1) * of_int b \<le> (of_int a :: rat)" .
    then show ?thesis using bpos by (simp add: x pos_le_divide_eq)
  qed
  have hi: "x < 2 powi (k + 1)"
  proof -
    have "(of_int a :: rat) < 2 powi bitlen a" by (rule A(2))
    also have "\<dots> = 2 powi (k + 1) * 2 powi (bitlen b - 1)"
      by (simp add: k_def flip: power_int_add)
    also have "\<dots> \<le> 2 powi (k + 1) * of_int b"
      using B(1) by (intro mult_left_mono) auto
    finally show ?thesis using bpos by (simp add: x pos_divide_less_eq)
  qed
  have il: "ilog2 x = (if 2 powi k \<le> x then k else k - 1)"
    by (simp add: ilog2_def k_def a_def b_def Let_def)
  show "2 powi ilog2 x \<le> x" using lo by (simp add: il)
  show "x < 2 powi (ilog2 x + 1)" using hi by (auto simp: il not_le)
qed

lemma ilog2_unique:
  assumes "2 powi e \<le> x" and "x < 2 powi (e + 1)"
  shows "ilog2 x = e"
proof -
  have pos: "0 < x" using assms(1) by (rule less_le_trans [rotated]) simp
  note B = ilog2_bounds [OF pos]
  have "(2::rat) powi e < 2 powi (ilog2 x + 1)" using assms(1) B(2) by (rule le_less_trans)
  moreover have "(2::rat) powi ilog2 x < 2 powi (e + 1)" using B(1) assms(2) by (rule le_less_trans)
  ultimately show ?thesis by (simp add: powi_two_less_iff)
qed

lemma ilog2_mono:
  assumes "0 < x" and "x \<le> y"
  shows "ilog2 x \<le> ilog2 y"
proof -
  have "0 < y" using assms by simp
  have "(2::rat) powi ilog2 x \<le> x" using assms(1) by (rule ilog2_bounds)
  also have "x \<le> y" by fact
  also have "y < 2 powi (ilog2 y + 1)" using \<open>0 < y\<close> by (rule ilog2_bounds)
  finally show ?thesis by (simp add: powi_two_less_iff)
qed



lemma round_half_even_of_int: "round_half_even (of_int n) = n"
  by (simp add: round_half_even_def)

lemma round_half_even_range:
  "\<lfloor>x\<rfloor> \<le> round_half_even x \<and> round_half_even x \<le> \<lfloor>x\<rfloor> + 1"
  by (simp add: round_half_even_def Let_def)

lemma round_half_even_mono:
  assumes "x \<le> y"
  shows "round_half_even x \<le> round_half_even y"
proof (cases "\<lfloor>x\<rfloor> = \<lfloor>y\<rfloor>")
  case True
  with assms show ?thesis
    by (auto simp: round_half_even_def Let_def)
next
  case False
  with assms have "\<lfloor>x\<rfloor> + 1 \<le> \<lfloor>y\<rfloor>"
    using floor_mono [of x y] by linarith
  with round_half_even_range [of x] round_half_even_range [of y] show ?thesis
    by linarith
qed

lemma round_half_even_minus: "round_half_even (- x) = - round_half_even x"
proof (cases "x \<in> \<int>")
  case True
  then obtain n where "x = of_int n" by (auto elim: Ints_cases)
  then show ?thesis using round_half_even_of_int [of "- n"] round_half_even_of_int [of n] by simp
next
  case False
  then have "x \<noteq> of_int \<lfloor>x\<rfloor>" by (metis Ints_of_int)
  then have "\<lceil>x\<rceil> = \<lfloor>x\<rfloor> + 1" by (simp add: ceiling_altdef)
  then have fl: "\<lfloor>- x\<rfloor> = - \<lfloor>x\<rfloor> - 1" by (simp add: ceiling_def)
  show ?thesis
    by (auto simp: round_half_even_def Let_def fl)
qed

lemma round_double_nonzero:
  "x \<noteq> 0 \<Longrightarrow> round_double x =
     of_int (round_half_even (x / 2 powi (ilog2 \<bar>x\<bar> - 52))) * 2 powi (ilog2 \<bar>x\<bar> - 52)"
  by (simp add: round_double_def Let_def)

lemma round_double_zero: "round_double 0 = 0"
  by (simp add: round_double_def)

lemma round_double_minus: "round_double (- x) = - round_double x"
  by (cases "x = 0") (simp_all add: round_double_nonzero round_double_zero round_half_even_minus)

lemma round_double_pos_bounds:
  assumes "0 < x"
  shows "2 powi ilog2 x \<le> round_double x" and "round_double x \<le> 2 powi (ilog2 x + 1)"
proof -
  define s :: rat where "s = 2 powi (ilog2 x - 52)"
  have s: "0 < s" by (simp add: s_def)
  have rd: "round_double x = of_int (round_half_even (x / s)) * s"
    using assms by (simp add: round_double_nonzero s_def)
  have lo: "2 powi ilog2 x = of_int (2 ^ 52) * s"
    using power_int_add [of "2::rat" 52 "ilog2 x - 52"] by (simp add: s_def)
  have "ilog2 x + 1 = 53 + (ilog2 x - 52)" by simp
  then have "(2::rat) powi (ilog2 x + 1) = 2 powi (53 + (ilog2 x - 52))" by (rule arg_cong)
  also have "\<dots> = 2 powi 53 * s" unfolding s_def by (rule power_int_add) simp
  finally have hi: "2 powi (ilog2 x + 1) = of_int (2 ^ 53) * s" by simp
  have "of_int (2 ^ 52) \<le> x / s"
    using ilog2_bounds(1) [OF assms] s by (simp add: lo pos_le_divide_eq)
  from round_half_even_mono [OF this] have "2 ^ 52 \<le> round_half_even (x / s)"
    by (simp only: round_half_even_of_int)
  then have "(of_int (2 ^ 52) :: rat) \<le> of_int (round_half_even (x / s))"
    by (simp only: of_int_le_iff)
  then show "2 powi ilog2 x \<le> round_double x"
    unfolding rd lo using s by (intro mult_right_mono) auto
  have "x / s \<le> of_int (2 ^ 53)"
    using ilog2_bounds(2) [OF assms] s by (simp add: hi pos_divide_le_eq)
  from round_half_even_mono [OF this] have "round_half_even (x / s) \<le> 2 ^ 53"
    by (simp only: round_half_even_of_int)
  then have "(of_int (round_half_even (x / s)) :: rat) \<le> of_int (2 ^ 53)"
    by (simp only: of_int_le_iff)
  then show "round_double x \<le> 2 powi (ilog2 x + 1)"
    unfolding rd hi using s by (intro mult_right_mono) auto
qed

lemma round_double_pos: "0 < x \<Longrightarrow> 0 < round_double x"
  using round_double_pos_bounds(1) [of x] by (rule_tac less_le_trans [of _ "2 powi ilog2 x"]) auto

lemma round_double_mono_pos:
  assumes "0 < x" and "x \<le> y"
  shows "round_double x \<le> round_double y"
proof -
  have y: "0 < y" using assms by simp
  have le: "ilog2 x \<le> ilog2 y" using assms by (rule ilog2_mono)
  show ?thesis
  proof (cases "ilog2 x = ilog2 y")
    case True
    define s :: rat where "s = 2 powi (ilog2 x - 52)"
    have s: "0 < s" by (simp add: s_def)
    have "x / s \<le> y / s" using assms(2) s by (simp add: divide_right_mono)
    then have "(of_int (round_half_even (x / s)) :: rat) \<le> of_int (round_half_even (y / s))"
      by (simp only: of_int_le_iff round_half_even_mono)
    then have "of_int (round_half_even (x / s)) * s \<le> of_int (round_half_even (y / s)) * s"
      using s by (intro mult_right_mono) auto
    then show ?thesis using assms(1) y True by (simp add: round_double_nonzero s_def)
  next
    case False
    with le have "ilog2 x + 1 \<le> ilog2 y" by simp
    then have "(2::rat) powi (ilog2 x + 1) \<le> 2 powi ilog2 y" by (simp add: powi_two_le_iff)
    with round_double_pos_bounds(2) [OF assms(1)] round_double_pos_bounds(1) [OF y]
    show ?thesis by linarith
  qed
qed

lemma round_double_mono:
  assumes "x \<le> y"
  shows "round_double x \<le> round_double y"
proof -
  consider "0 < x" | "y < 0" | "x \<le> 0" "0 \<le> y" by linarith
  then show ?thesis
  proof cases
    case 1
    then show ?thesis using assms by (rule round_double_mono_pos)
  next
    case 2
    then have "0 < - y" "- y \<le> - x" using assms by simp_all
    from round_double_mono_pos [OF this] show ?thesis by (simp add: round_double_minus)
  next
    case 3
    have "round_double x \<le> 0"
    proof (cases "x = 0")
      case False
      with 3 have "0 < - x" by simp
      from round_double_pos [OF this] show ?thesis by (simp add: round_double_minus)
    qed (simp add: round_double_zero)
    moreover have "0 \<le> round_double y"
    proof (cases "y = 0")
      case False
      with 3 have "0 < y" by simp
      from round_double_pos [OF this] show ?thesis by simp
    qed (simp add: round_double_zero)
    ultimately show ?thesis by simp
  qed
qed




lemma round_double_scaled_int:
  assumes "\<bar>m\<bar> < 2 ^ 53"
  shows "round_double (of_int m * 2 powi k) = of_int m * 2 powi k"
proof (cases "m = 0")
  case True
  then show ?thesis by (simp add: round_double_zero)
next
  case False
  define j where "j = ilog2 (of_int \<bar>m\<bar>)"
  have mpos: "(0::rat) < of_int \<bar>m\<bar>" using False by simp
  note B = ilog2_bounds [OF mpos, folded j_def]
  have "(2::rat) powi 0 \<le> of_int \<bar>m\<bar>" using False by (simp add: of_int_abs [symmetric] del: of_int_abs) 
  then have "(2::rat) powi 0 < 2 powi (j + 1)" using B(2) by (rule le_less_trans)
  then have j0: "0 \<le> j" by (simp only: powi_two_less_iff)
  have "(of_int \<bar>m\<bar> :: rat) < of_int (2 ^ 53)" using assms by (simp only: of_int_less_iff)
  then have "(of_int \<bar>m\<bar> :: rat) < 2 powi 53" by simp
  with B(1) have "(2::rat) powi j < 2 powi 53" by (rule le_less_trans)
  then have j52: "j \<le> 52" by (simp only: powi_two_less_iff)
  let ?x = "of_int m * (2::rat) powi k"
  have ax: "\<bar>?x\<bar> = of_int \<bar>m\<bar> * 2 powi k" by (simp add: abs_mult)
  have "ilog2 \<bar>?x\<bar> = j + k"
  proof (rule ilog2_unique)
    show "2 powi (j + k) \<le> \<bar>?x\<bar>"
      unfolding ax using B(1) by (simp add: power_int_add mult_right_mono)
    have "of_int \<bar>m\<bar> * (2::rat) powi k < 2 powi (j + 1) * 2 powi k"
      using B(2) by (intro mult_strict_right_mono) auto
    also have "\<dots> = 2 powi (j + k + 1)" by (simp add: power_int_add)
    finally show "\<bar>?x\<bar> < 2 powi (j + k + 1)" unfolding ax .
  qed
  then have e: "ilog2 \<bar>?x\<bar> - 52 = k - (52 - j)" by simp
  have split: "(2::rat) powi k = 2 powi (52 - j) * 2 powi (k - (52 - j))"
    by (simp flip: power_int_add)
  have p: "(2::rat) powi (52 - j) = of_int (2 ^ nat (52 - j))"
    using j52 by (simp add: power_int_nonneg_exp)
  have "?x / 2 powi (k - (52 - j)) = of_int m * 2 powi (52 - j)"
    by (subst split) simp
  also have "\<dots> = of_int (m * 2 ^ nat (52 - j))" by (simp add: p)
  finally have q: "?x / 2 powi (k - (52 - j)) = of_int (m * 2 ^ nat (52 - j))" .
  have "?x \<noteq> 0" using False by simp
  from round_double_nonzero [OF this]
  have "round_double ?x = of_int (m * 2 ^ nat (52 - j)) * 2 powi (k - (52 - j))"
    unfolding e q round_half_even_of_int .
  also have "\<dots> = of_int m * (2 powi (52 - j) * 2 powi (k - (52 - j)))"
    by (simp add: p)
  also have "\<dots> = ?x" by (simp only: split [symmetric])
  finally show ?thesis .
qed

lemma round_double_of_int: "\<bar>m\<bar> < 2 ^ 53 \<Longrightarrow> round_double (of_int m) = of_int m"
  using round_double_scaled_int [of m 0] by simp

lemma round_double_of_int_div16:
  "\<bar>m\<bar> < 2 ^ 53 \<Longrightarrow> round_double (of_int m / 16) = of_int m / 16"
  using round_double_scaled_int [of m "- 4"] by (simp add: power_int_minus_divide)

lemma round_double_le_int:
  "x \<le> of_int m \<Longrightarrow> \<bar>m\<bar> < 2 ^ 53 \<Longrightarrow> round_double x \<le> of_int m"
  using round_double_mono [of x "of_int m"] by (simp add: round_double_of_int)

lemma round_double_ge_int:
  "of_int m \<le> x \<Longrightarrow> \<bar>m\<bar> < 2 ^ 53 \<Longrightarrow> of_int m \<le> round_double x"
  using round_double_mono [of "of_int m" x] by (simp add: round_double_of_int)

lemma round_half_even_error: "\<bar>of_int (round_half_even y) - y\<bar> \<le> 1 / 2"
proof -
  have "of_int \<lfloor>y\<rfloor> \<le> y" "y < of_int \<lfloor>y\<rfloor> + 1" by linarith+
  then show ?thesis by (auto simp: round_half_even_def Let_def)
qed

lemma round_double_error: "\<bar>round_double x - x\<bar> \<le> \<bar>x\<bar> / 2 ^ 53"
proof (cases "x = 0")
  case True
  then show ?thesis by (simp add: round_double_zero)
next
  case False
  define s :: rat where "s = 2 powi (ilog2 \<bar>x\<bar> - 52)"
  have s: "0 < s" by (simp add: s_def)
  have pos: "0 < \<bar>x\<bar>" using False by simp
  have "2 powi ilog2 \<bar>x\<bar> = of_int (2 ^ 52) * s"
    using power_int_add [of "2::rat" 52 "ilog2 \<bar>x\<bar> - 52"] by (simp add: s_def)
  with ilog2_bounds(1) [OF pos] have lo: "2 ^ 52 * s \<le> \<bar>x\<bar>" by simp
  have rd: "round_double x = of_int (round_half_even (x / s)) * s"
    using False by (simp add: round_double_nonzero s_def)
  have "round_double x - x = (of_int (round_half_even (x / s)) - x / s) * s"
    using s by (simp add: rd algebra_simps)
  then have "\<bar>round_double x - x\<bar> = \<bar>of_int (round_half_even (x / s)) - x / s\<bar> * s"
    using s by (simp add: abs_mult)
  also have "\<dots> \<le> 1 / 2 * s"
    using round_half_even_error [of "x / s"] s by (intro mult_right_mono) simp_all
  also have "\<dots> = 2 ^ 52 * s / 2 ^ 53" by simp
  also have "\<dots> \<le> \<bar>x\<bar> / 2 ^ 53" using lo by (intro divide_right_mono) simp_all
  finally show ?thesis .
qed

lemma round_double_idem_pos:
  assumes "0 < x"
  shows "round_double (round_double x) = round_double x"
proof -
  define e where "e = ilog2 x - 52"
  define m where "m = round_half_even (x / 2 powi e)"
  have rd: "round_double x = of_int m * 2 powi e"
    using assms by (simp add: round_double_nonzero m_def e_def)
  have s: "(0::rat) < 2 powi e" by simp
  have "ilog2 x + 1 = 53 + e" by (simp add: e_def)
  then have "(2::rat) powi (ilog2 x + 1) = 2 powi (53 + e)" by (rule arg_cong)
  also have "\<dots> = 2 powi 53 * 2 powi e" by (rule power_int_add) simp
  finally have hi: "2 powi (ilog2 x + 1) = of_int (2 ^ 53) * (2::rat) powi e" by simp
  from round_double_pos_bounds(2) [OF assms]
  have "of_int m * 2 powi e \<le> of_int (2 ^ 53) * (2::rat) powi e" by (simp only: rd hi)
  then have "(of_int m :: rat) \<le> of_int (2 ^ 53)" using s by (simp only: mult_le_cancel_right_pos)
  then have m53: "m \<le> 2 ^ 53" by (simp only: of_int_le_iff)
  from round_double_pos [OF assms] have "0 < of_int m * (2::rat) powi e" by (simp only: rd)
  then have "(0::rat) < of_int m" using s by (simp add: zero_less_mult_iff)
  then have m0: "0 < m" by simp
  show ?thesis
  proof (cases "m = 2 ^ 53")
    case True
    have "(2::rat) powi (e + 1) = 2 powi e * 2" by (simp add: power_int_add)
    then have "of_int m * 2 powi e = of_int (2 ^ 52) * (2::rat) powi (e + 1)" by (simp add: True)
    moreover have "round_double (of_int (2 ^ 52) * 2 powi (e + 1)) = of_int (2 ^ 52) * 2 powi (e + 1)"
      by (rule round_double_scaled_int) simp
    ultimately show ?thesis by (simp only: rd)
  next
    case False
    with m53 m0 have "\<bar>m\<bar> < 2 ^ 53" by simp
    then show ?thesis unfolding rd by (rule round_double_scaled_int)
  qed
qed

lemma round_double_idem: "round_double (round_double x) = round_double x"
proof -
  consider "0 < x" | "x = 0" | "0 < - x" by linarith
  then show ?thesis
  proof cases
    case 1
    then show ?thesis by (rule round_double_idem_pos)
  next
    case 2
    then show ?thesis by (simp add: round_double_zero)
  next
    case 3
    from round_double_idem_pos [OF this] show ?thesis by (simp add: round_double_minus)
  qed
qed

lemma floor_rat_numeral_div: "\<lfloor>(numeral a :: rat) / numeral b\<rfloor> = numeral a div numeral b"
  using floor_divide_of_int_eq [of "numeral a" "numeral b", where ?'a = rat] by simp

lemma round_double_below_one:
  assumes "1 / 2 \<le> x" and "x < 1"
  shows "round_double x = of_int (round_half_even (x * 2 ^ 53)) / 2 ^ 53"
proof -
  have "0 < x" using assms(1) by simp
  then have ax: "\<bar>x\<bar> = x" "x \<noteq> 0" by simp_all
  have e: "ilog2 x = - 1"
    using assms by (intro ilog2_unique) (simp_all add: power_int_minus_divide)
  have p: "(2::rat) powi (- 1 - 52) = 1 / 2 ^ 53" by (simp add: power_int_minus_divide)
  show ?thesis unfolding round_double_nonzero [OF ax(2)] ax(1) e p by simp
qed

section \<open>Properties of the codec\<close>

lemma ustr_hash: "ustr ''#'' = [35]"
  by (simp add: ustr_def)

lemma ustr_alphas: "ustr ''ABCDEF'' = [65, 66, 67, 68, 69, 70]"
  by (simp add: ustr_def)

lemma hexdigits_eq:
  "hexdigits = [48, 49, 50, 51, 52, 53, 54, 55, 56, 57, 65, 66, 67, 68, 69, 70]"
  by (simp add: hexdigits_def ustr_def)

lemma decimal_digit_ascii: "48 \<le> c \<Longrightarrow> c < 58 \<Longrightarrow> decimal_digit c = Some (c - 48)"
  by (simp add: decimal_digit_def decimal_zeros_def)

lemma decimal_digit_gap: "58 \<le> c \<Longrightarrow> c < 1632 \<Longrightarrow> decimal_digit c = None"
  by (simp add: decimal_digit_def decimal_zeros_def)

lemma decimal_digit_low: "c < 48 \<Longrightarrow> decimal_digit c = None"
  by (simp add: decimal_digit_def decimal_zeros_def)

lemma decimal_digit_less:
  assumes "decimal_digit c = Some v"
  shows "v < 10"
proof -
  from assms obtain z where z: "find (\<lambda>z. z \<le> c \<and> c < z + 10) decimal_zeros = Some z"
    and v: "v = c - z" by (auto simp: decimal_digit_def)
  from z have "z \<le> c \<and> c < z + 10" by (auto simp: find_Some_iff)
  with v show ?thesis by arith
qed

lemma accepted_ascii:
  "48 \<le> c \<Longrightarrow> c < 58 \<Longrightarrow> accepted c"
  "65 \<le> c \<Longrightarrow> c \<le> 70 \<Longrightarrow> accepted c"
  "58 \<le> c \<Longrightarrow> c < 65 \<Longrightarrow> \<not> accepted c"
  "70 < c \<Longrightarrow> c < 1632 \<Longrightarrow> \<not> accepted c"
  "c < 48 \<Longrightarrow> \<not> accepted c"
proof -
  show "48 \<le> c \<Longrightarrow> c < 58 \<Longrightarrow> accepted c"
    by (simp add: accepted_def decimal_digit_ascii)
  show "65 \<le> c \<Longrightarrow> c \<le> 70 \<Longrightarrow> accepted c"
    by (simp add: accepted_def ustr_alphas) arith
  show "58 \<le> c \<Longrightarrow> c < 65 \<Longrightarrow> \<not> accepted c"
    by (simp add: accepted_def ustr_alphas decimal_digit_gap)
  show "70 < c \<Longrightarrow> c < 1632 \<Longrightarrow> \<not> accepted c"
    by (simp add: accepted_def ustr_alphas decimal_digit_gap)
  show "c < 48 \<Longrightarrow> \<not> accepted c"
    by (simp add: accepted_def ustr_alphas decimal_digit_low)
qed

lemma indhex_digit:
  "48 \<le> c \<Longrightarrow> c < 58 \<Longrightarrow> indhex_to_numeric c = Inr (int c - 48)"
  by (simp add: indhex_to_numeric_def int_of_char_def decimal_digit_ascii)

lemma indhex_alpha:
  "65 \<le> c \<Longrightarrow> c \<le> 70 \<Longrightarrow> indhex_to_numeric c = Inr (int c - 55)"
proof -
  assume "65 \<le> c" "c \<le> 70"
  then have "c = 65 \<or> c = 66 \<or> c = 67 \<or> c = 68 \<or> c = 69 \<or> c = 70" by arith
  then show ?thesis
    by (elim disjE) (simp_all add: indhex_to_numeric_def int_of_char_def decimal_digit_gap ustr_alphas)
qed

lemma nibble:
  assumes "0 \<le> d" and "d \<le> 15"
  shows "numeric_to_indhex d = Inr [hexdigits ! nat d]"
    and "indhex_to_numeric (hexdigits ! nat d) = Inr d"
    and "is_hex_upper (hexdigits ! nat d)"
proof -
  from assms have d: "d = 0 \<or> d = 1 \<or> d = 2 \<or> d = 3 \<or> d = 4 \<or> d = 5 \<or> d = 6 \<or> d = 7
      \<or> d = 8 \<or> d = 9 \<or> d = 10 \<or> d = 11 \<or> d = 12 \<or> d = 13 \<or> d = 14 \<or> d = 15" by arith
  then show "numeric_to_indhex d = Inr [hexdigits ! nat d]"
    by (elim disjE) (simp_all add: numeric_to_indhex_def hexdigits_eq ustr_alphas getitem_def str_int_def)
  from d show "indhex_to_numeric (hexdigits ! nat d) = Inr d"
    by (elim disjE) (simp_all add: hexdigits_eq indhex_digit indhex_alpha)
  from d show "is_hex_upper (hexdigits ! nat d)"
    by (elim disjE) (simp_all add: hexdigits_eq is_hex_upper_def)
qed

lemma str_index_absent: "c \<notin> set s \<Longrightarrow> str_index s c = Inl ValueError"
  by (induction s) simp_all

lemma str_index_present:
  "c \<in> set s \<Longrightarrow> \<exists>k. str_index s c = Inr k \<and> 0 \<le> k \<and> k < int (length s)"
proof (induction s)
  case Nil
  then show ?case by simp
next
  case (Cons x xs)
  show ?case
  proof (cases "x = c")
    case True
    then show ?thesis by simp
  next
    case False
    with Cons.prems have "c \<in> set xs" by simp
    from Cons.IH [OF this] obtain k where "str_index xs c = Inr k" "0 \<le> k" "k < int (length xs)"
      by blast
    with False show ?thesis by simp
  qed
qed

lemma indhex_not_accepted:
  assumes "\<not> accepted c"
  shows "indhex_to_numeric c = Inl ValueError"
proof -
  from assms have d: "decimal_digit c = None" and a: "c \<notin> set (ustr ''ABCDEF'')"
    by (simp_all add: accepted_def)
  show ?thesis
    by (simp add: indhex_to_numeric_def int_of_char_def d str_index_absent [OF a])
qed

lemma indhex_accepted:
  assumes "accepted c"
  shows "\<exists>d. indhex_to_numeric c = Inr d \<and> 0 \<le> d \<and> d \<le> 15"
proof (cases "decimal_digit c")
  case (Some v)
  from decimal_digit_less [OF this] Some show ?thesis
    by (simp add: indhex_to_numeric_def int_of_char_def)
next
  case None
  with assms have "c \<in> set (ustr ''ABCDEF'')" by (simp add: accepted_def)
  from str_index_present [OF this] obtain k where
    k: "str_index (ustr ''ABCDEF'') c = Inr k" "0 \<le> k" "k < int (length (ustr ''ABCDEF''))"
    by blast
  from k(3) have "k < 6" by (simp add: ustr_alphas)
  with k(1,2) None show ?thesis
    by (simp add: indhex_to_numeric_def int_of_char_def)
qed

lemma indhex_hex:
  assumes "is_hex_upper c"
  obtains d where "0 \<le> d" "d \<le> 15" "c = hexdigits ! nat d"
    "indhex_to_numeric c = Inr d" "numeric_to_indhex d = Inr [c]"
proof -
  from assms have "c \<in> set hexdigits" by (simp add: is_hex_upper_def)
  then obtain i where i: "i < length hexdigits" "hexdigits ! i = c"
    by (auto simp: in_set_conv_nth)
  have "length hexdigits = 16" by (simp add: hexdigits_eq)
  with i(1) have r: "0 \<le> int i" "int i \<le> 15" by simp_all
  from nibble [OF r] i(2) r show thesis by (intro that [of "int i"]) simp_all
qed

lemma is_hex_upper_accepted:
  assumes "is_hex_upper c"
  shows "accepted c"
proof (rule ccontr)
  assume "\<not> accepted c"
  then have "indhex_to_numeric c = Inl ValueError" by (rule indhex_not_accepted)
  moreover from assms obtain d where "indhex_to_numeric c = Inr d" by (rule indhex_hex)
  ultimately show False by simp
qed

lemma colorval_to_hexval_int:
  assumes "0 \<le> v" and "v \<le> 255"
  shows "colorval_to_hexval (PInt v) =
           Inr [hexdigits ! nat (v div 16), hexdigits ! nat (v mod 16)]"
proof -
  have "\<bar>v\<bar> < 2 ^ 53" using assms by simp
  then have q: "round_double (of_int v / 16) = of_int v / 16"
    by (rule round_double_of_int_div16)
  have "trunc (of_int v / 16) = \<lfloor>(of_int v :: rat) / of_int 16\<rfloor>"
    using assms by (simp add: trunc_def)
  also have "\<dots> = v div 16" by (simp only: floor_divide_of_int_eq)
  finally have t: "trunc (of_int v / 16) = v div 16" .
  have hi: "0 \<le> v div 16" "v div 16 \<le> 15" using assms by simp_all
  have lo: "0 \<le> v mod 16" "v mod 16 \<le> 15" using assms by simp_all
  show ?thesis
    by (simp add: colorval_to_hexval_def q t nibble(1) [OF hi] nibble(1) [OF lo])
qed

lemma hexval_to_colorval_pair:
  "hexval_to_colorval [a, b] =
     bind (indhex_to_numeric a) (\<lambda>d. bind (indhex_to_numeric b) (\<lambda>r. Inr (PInt (d * 16 + r))))"
  by (simp add: hexval_to_colorval_def getitem_def)

lemma hexval_to_colorval_nibbles:
  assumes "0 \<le> v" and "v \<le> 255"
  shows "hexval_to_colorval [hexdigits ! nat (v div 16), hexdigits ! nat (v mod 16)] = Inr (PInt v)"
proof -
  have hi: "0 \<le> v div 16" "v div 16 \<le> 15" using assms by simp_all
  have lo: "0 \<le> v mod 16" "v mod 16 \<le> 15" using assms by simp_all
  show ?thesis
    by (simp add: hexval_to_colorval_pair nibble(2) [OF hi] nibble(2) [OF lo])
qed

lemma upt_3: "[0..<3] = [0, 1, 2]"
  by (simp add: upt_rec)

lemma hex_to_rgb_pairs:
  "hex_to_rgb s =
     map_err hexval_to_colorval
       [take 2 (strip_hash s), take 2 (drop 2 (strip_hash s)), take 2 (drop 4 (strip_hash s))]"
proof (cases s)
  case Nil
  then show ?thesis
    by (simp add: hex_to_rgb_def strip_hash_def getitem_def hexval_to_colorval_def)
next
  case (Cons c cs)
  then show ?thesis
    by (simp add: hex_to_rgb_def strip_hash_def getitem_def upt_3 Let_def)
qed

text \<open>
  Claim C1. For every colour whose three channels are integers between 0 and 255,
  \<open>rgb_to_hex\<close> returns a string, and \<open>hex_to_rgb\<close> of that string is the same triple.
\<close>

theorem rgb_hex_roundtrip:
  assumes "0 \<le> r \<and> r \<le> 255" and "0 \<le> g \<and> g \<le> 255" and "0 \<le> b \<and> b \<le> 255"
  shows "\<exists>h. rgb_to_hex [PInt r, PInt g, PInt b] = Inr h
             \<and> hex_to_rgb h = Inr [PInt r, PInt g, PInt b]"
proof -
  let ?h = "[35, hexdigits ! nat (r div 16), hexdigits ! nat (r mod 16),
             hexdigits ! nat (g div 16), hexdigits ! nat (g mod 16),
             hexdigits ! nat (b div 16), hexdigits ! nat (b mod 16)]"
  have enc: "rgb_to_hex [PInt r, PInt g, PInt b] = Inr ?h"
    using assms by (simp add: rgb_to_hex_def colorval_to_hexval_int ustr_hash)
  have dec: "hex_to_rgb ?h = Inr [PInt r, PInt g, PInt b]"
    using assms by (simp add: hex_to_rgb_pairs strip_hash_def hexval_to_colorval_nibbles ustr_hash)
  from enc dec show ?thesis by blast
qed

theorem rgb_hex_roundtrip_witness:
  "\<exists>h. rgb_to_hex [PInt 237, PInt 248, PInt 251] = Inr h
       \<and> hex_to_rgb h = Inr [PInt 237, PInt 248, PInt 251]"
  using rgb_hex_roundtrip [of 237 248 251] by simp

lemma hexval_to_colorval_short:
  "hexval_to_colorval [] = Inl IndexError"
  "hexval_to_colorval [a] = (if accepted a then Inl IndexError else Inl ValueError)"
proof -
  show "hexval_to_colorval [] = Inl IndexError"
    by (simp add: hexval_to_colorval_def getitem_def)
  show "hexval_to_colorval [a] = (if accepted a then Inl IndexError else Inl ValueError)"
  proof (cases "accepted a")
    case True
    from indhex_accepted [OF this] obtain d where "indhex_to_numeric a = Inr d" by blast
    with True show ?thesis by (simp add: hexval_to_colorval_def getitem_def)
  next
    case False
    then show ?thesis by (simp add: hexval_to_colorval_def getitem_def indhex_not_accepted)
  qed
qed

lemma hexval_to_colorval_good:
  assumes "is_hex_upper a" and "is_hex_upper b"
  shows "\<exists>v. hexval_to_colorval [a, b] = Inr (PInt v) \<and> 0 \<le> v \<and> v \<le> 255
             \<and> colorval_to_hexval (PInt v) = Inr [a, b]"
proof -
  from assms(1) obtain d where d: "0 \<le> d" "d \<le> 15" "a = hexdigits ! nat d"
    "indhex_to_numeric a = Inr d" by (rule indhex_hex)
  from assms(2) obtain r where r: "0 \<le> r" "r \<le> 15" "b = hexdigits ! nat r"
    "indhex_to_numeric b = Inr r" by (rule indhex_hex)
  let ?v = "d * 16 + r"
  have v: "0 \<le> ?v" "?v \<le> 255" using d r by simp_all
  have dv: "?v div 16 = d" "?v mod 16 = r" using d r by simp_all
  have "hexval_to_colorval [a, b] = Inr (PInt ?v)"
    by (simp add: hexval_to_colorval_pair d(4) r(4))
  moreover have "colorval_to_hexval (PInt ?v) = Inr [a, b]"
    unfolding colorval_to_hexval_int [OF v] dv d(3) r(3) ..
  ultimately show ?thesis using v by blast
qed

lemma take6_shapes:
  obtains "length (s::pystr) < 6" | a b c d e f r where "s = a # b # c # d # e # f # r"
proof (cases "length s < 6")
  case False
  then have "6 \<le> length s" by simp
  then obtain a b c d e f r where "s = a # b # c # d # e # f # r"
    by (auto simp: Suc_le_length_iff eval_nat_numeral)
  then show thesis by (rule that(2))
qed (rule that(1))

lemma short_shapes:
  assumes "length (s::pystr) < 6"
  shows "s = [] \<or> (\<exists>a. s = [a]) \<or> (\<exists>a b. s = [a, b]) \<or> (\<exists>a b c. s = [a, b, c])
     \<or> (\<exists>a b c d. s = [a, b, c, d]) \<or> (\<exists>a b c d e. s = [a, b, c, d, e])"
proof -
  from assms have "length s = 0 \<or> length s = 1 \<or> length s = 2 \<or> length s = 3
      \<or> length s = 4 \<or> length s = 5" by linarith
  then show ?thesis by (auto simp: length_Suc_conv eval_nat_numeral)
qed

lemma hexval_to_colorval_outcome:
  "hexval_to_colorval [a, b] =
     (if accepted a \<and> accepted b then Inr (PInt (hex_value a * 16 + hex_value b))
      else Inl ValueError)"
proof (cases "accepted a")
  case a: True
  from indhex_accepted [OF this] obtain d where d: "indhex_to_numeric a = Inr d" by blast
  show ?thesis
  proof (cases "accepted b")
    case True
    from indhex_accepted [OF this] obtain r where r: "indhex_to_numeric b = Inr r" by blast
    from a True show ?thesis by (simp add: hexval_to_colorval_pair hex_value_def d r)
  next
    case False
    with a show ?thesis by (simp add: hexval_to_colorval_pair d indhex_not_accepted)
  qed
next
  case False
  then show ?thesis by (simp add: hexval_to_colorval_pair indhex_not_accepted)
qed

lemma hex_to_rgb_outcome:
  "hex_to_rgb s =
     (let code = strip_hash s
      in if \<not> list_all accepted (take 6 code) then Inl ValueError
         else if length code < 6 then Inl IndexError
         else Inr (map (\<lambda>i. PInt (hex_value (code ! (2 * i)) * 16 + hex_value (code ! (2 * i + 1))))
                    [0, 1, 2]))"
proof (cases "strip_hash s" rule: take6_shapes)
  case 1
  from short_shapes [OF this] show ?thesis
    by (elim disjE exE)
      (auto simp: hex_to_rgb_pairs hexval_to_colorval_short hexval_to_colorval_outcome Let_def)
next
  case (2 a b c d e f r)
  then show ?thesis
    by (auto simp: hex_to_rgb_pairs hexval_to_colorval_outcome Let_def)
qed

text \<open>
  Claim C2, as amended. For every string \<open>h\<close> made of \<open>#\<close> and six characters among the
  ASCII digits and the upper case letters \<open>A\<close> to \<open>F\<close>, \<open>hex_to_rgb\<close> succeeds and
  \<open>rgb_to_hex\<close> of its result is \<open>h\<close> again (which is its own upper case form).
\<close>

theorem hex_rgb_roundtrip_upper:
  assumes "length ds = 6" and "list_all is_hex_upper ds"
  shows "\<exists>c. hex_to_rgb (ustr ''#'' @ ds) = Inr c \<and> rgb_to_hex c = Inr (ustr ''#'' @ ds)"
proof -
  from assms(1) obtain a b c d e f where ds: "ds = [a, b, c, d, e, f]"
    by (auto simp: length_Suc_conv eval_nat_numeral)
  with assms(2) have h: "is_hex_upper a" "is_hex_upper b" "is_hex_upper c"
    "is_hex_upper d" "is_hex_upper e" "is_hex_upper f" by simp_all
  from hexval_to_colorval_good [OF h(1,2)] obtain r where r:
    "hexval_to_colorval [a, b] = Inr (PInt r)" "colorval_to_hexval (PInt r) = Inr [a, b]" by blast
  from hexval_to_colorval_good [OF h(3,4)] obtain g where g:
    "hexval_to_colorval [c, d] = Inr (PInt g)" "colorval_to_hexval (PInt g) = Inr [c, d]" by blast
  from hexval_to_colorval_good [OF h(5,6)] obtain bl where bl:
    "hexval_to_colorval [e, f] = Inr (PInt bl)" "colorval_to_hexval (PInt bl) = Inr [e, f]" by blast
  have "hex_to_rgb (ustr ''#'' @ ds) = Inr [PInt r, PInt g, PInt bl]"
    by (simp add: hex_to_rgb_pairs strip_hash_def ustr_hash ds r(1) g(1) bl(1))
  moreover have "rgb_to_hex [PInt r, PInt g, PInt bl] = Inr (ustr ''#'' @ ds)"
    by (simp add: rgb_to_hex_def ustr_hash ds r(2) g(2) bl(2))
  ultimately show ?thesis by blast
qed

theorem hex_rgb_roundtrip_upper_witness:
  "\<exists>c. hex_to_rgb (ustr ''#EDF8FB'') = Inr c \<and> rgb_to_hex c = Inr (ustr ''#EDF8FB'')"
  using hex_rgb_roundtrip_upper [of "ustr ''EDF8FB''"]
  by (simp add: is_hex_upper_def hexdigits_eq ustr_def)

text \<open>
  The claim as stated also promises that lower case digits decode. They do not: a lower
  case letter is neither a decimal digit nor found in \<open>'ABCDEF'\<close>.
\<close>

theorem hex_to_rgb_lowercase_fails: "hex_to_rgb (ustr ''#edf8fb'') = Inl ValueError"
  by (simp add: hex_to_rgb_outcome strip_hash_def ustr_def accepted_ascii)

text \<open>
  Claim C3, as amended. After an optional leading \<open>#\<close> is dropped, \<open>hex_to_rgb\<close> fails exactly
  when fewer than six characters are left or one of the first six is neither a decimal
  digit, of any script, nor an upper case letter \<open>A\<close> to \<open>F\<close>. The exception is \<open>ValueError\<close>
  when such a character is among the first six, and \<open>IndexError\<close> when the string is too
  short and all its characters are converted. Characters after the sixth are not read.
\<close>

theorem hex_to_rgb_fails_iff:
  "((\<exists>e. hex_to_rgb s = Inl e) \<longleftrightarrow>
      length (strip_hash s) < 6 \<or> \<not> list_all accepted (take 6 (strip_hash s)))
   \<and> (hex_to_rgb s = Inl ValueError \<longleftrightarrow> \<not> list_all accepted (take 6 (strip_hash s)))
   \<and> (hex_to_rgb s = Inl IndexError \<longleftrightarrow>
      length (strip_hash s) < 6 \<and> list_all accepted (strip_hash s))"
  by (auto simp: hex_to_rgb_outcome Let_def)

lemma decimal_digit_1635: "decimal_digit 1635 = Some 3"
  by (simp add: decimal_digit_def decimal_zeros_def)

lemma accepted_1635: "accepted 1635"
  by (simp add: accepted_def decimal_digit_1635)

lemma hex_value_samples:
  "hex_value 49 = 1" "hex_value 50 = 2" "hex_value 51 = 3" "hex_value 52 = 4"
  "hex_value 53 = 5" "hex_value 54 = 6"
  by (simp_all add: hex_value_def indhex_digit)

lemma hex_value_1635: "hex_value 1635 = 3"
  by (simp add: hex_value_def indhex_to_numeric_def int_of_char_def decimal_digit_1635)

theorem hex_to_rgb_fails_iff_witness:
  "(\<exists>e. hex_to_rgb (ustr ''#12G'') = Inl e) \<and> hex_to_rgb (ustr ''#12G'') = Inl ValueError
   \<and> hex_to_rgb (ustr ''#12G'') \<noteq> Inl IndexError
   \<and> (\<nexists>e. hex_to_rgb [35, 1635, 1635, 1635, 1635, 1635, 1635] = Inl e)"
  using hex_to_rgb_fails_iff [of "ustr ''#12G''"]
    hex_to_rgb_fails_iff [of "[35, 1635, 1635, 1635, 1635, 1635, 1635]"]
  by (simp add: strip_hash_def ustr_def accepted_ascii accepted_1635)

text \<open>
  The claim as stated fails in four ways: a seventh character is ignored, lower case hex
  digits are rejected, a short string raises \<open>IndexError\<close>, and a decimal digit of another
  script, here six times the Arabic-Indic digit three (U+0663), is converted like its ASCII
  counterpart.
\<close>

theorem hex_to_rgb_long_input_accepted:
  "length (strip_hash (ustr ''#1234567'')) \<noteq> 6
   \<and> hex_to_rgb (ustr ''#1234567'') = Inr [PInt 18, PInt 52, PInt 86]
   \<and> hex_to_rgb (ustr ''#abcdef'') = Inl ValueError
   \<and> hex_to_rgb (ustr ''#12345'') = Inl IndexError
   \<and> hex_to_rgb [35, 1635, 1635, 1635, 1635, 1635, 1635] = Inr [PInt 51, PInt 51, PInt 51]"
  by (simp add: hex_to_rgb_outcome strip_hash_def ustr_def accepted_ascii accepted_1635
      hex_value_samples hex_value_1635)
section \<open>Properties of the gradient\<close>

lemma map_err_total:
  assumes "\<And>x. x \<in> set xs \<Longrightarrow> f x = Inr (g x)"
  shows "map_err f xs = Inr (map g xs)"
  using assms by (induction xs) simp_all

lemma round_double_unit:
  assumes "0 \<le> x" and "x \<le> 1"
  shows "0 \<le> round_double x" and "round_double x \<le> 1"
  using round_double_ge_int [of 0 x] round_double_le_int [of x 1] assms by simp_all

lemma round_double_one: "round_double 1 = 1"
  using round_double_of_int [of 1] by simp

lemma round_double_nonneg: "0 \<le> x \<Longrightarrow> 0 \<le> round_double x"
  using round_double_mono [of 0 x] by (simp add: round_double_zero)

lemma fraction_bounds:
  assumes "0 \<le> k" and "k \<le> m" and "1 \<le> m"
  defines "fr \<equiv> round_double (round_double (of_int k) / round_double (of_int m))"
  shows "0 \<le> fr" and "fr \<le> 1" and "k = 0 \<Longrightarrow> fr = 0" and "k = m \<Longrightarrow> fr = 1"
    and "round_double (of_int m) \<noteq> 0"
proof -
  have m: "0 < round_double (of_int m)" using assms(3) by (intro round_double_pos) simp
  then show "round_double (of_int m) \<noteq> 0" by simp
  have k: "0 \<le> round_double (of_int k)" using assms(1) by (intro round_double_nonneg) simp
  have km: "round_double (of_int k) \<le> round_double (of_int m)"
    using assms(2) by (intro round_double_mono) simp
  have "0 \<le> round_double (of_int k) / round_double (of_int m)" using k m by simp
  moreover have "round_double (of_int k) / round_double (of_int m) \<le> 1" using km m by simp
  ultimately show "0 \<le> fr" "fr \<le> 1" unfolding fr_def by (simp_all add: round_double_unit)
  show "k = 0 \<Longrightarrow> fr = 0" by (simp add: fr_def round_double_zero)
  show "k = m \<Longrightarrow> fr = 1" using m by (simp add: fr_def round_double_one)
qed

lemma trunc_of_int: "trunc (of_int n) = n"
  by (simp add: trunc_def)

lemma trunc_bounds:
  assumes "0 \<le> x" and "x \<le> of_int n"
  shows "0 \<le> trunc x" and "trunc x \<le> n"
proof -
  have t: "trunc x = \<lfloor>x\<rfloor>" using assms(1) by (simp add: trunc_def)
  show "0 \<le> trunc x" using assms(1) by (simp add: t)
  have "\<lfloor>x\<rfloor> \<le> \<lfloor>(of_int n :: rat)\<rfloor>" using assms(2) by (rule floor_mono)
  then show "trunc x \<le> n" by (simp add: t)
qed

text \<open>The entry of \<open>allColors\<close> that \<open>pick\<close> reads.\<close>

lemma pick_in_range:
  assumes L: "1 \<le> length allColors" "int (length allColors) - 1 < 2 ^ 53"
    and n: "2 \<le> n" and k: "0 \<le> k" "k \<le> n - 1"
  shows "\<exists>j < length allColors. pick allColors n k = Inr (allColors ! j)
            \<and> (k = 0 \<longrightarrow> j = 0) \<and> (k = n - 1 \<longrightarrow> j = length allColors - 1)"
proof -
  define fr where "fr = round_double (round_double (of_int k) / round_double (of_int (n - 1)))"
  define M where "M = int (length allColors) - 1"
  have n1: "1 \<le> n - 1" using n by simp
  note F = fraction_bounds [OF k n1, folded fr_def]
  have M0: "0 \<le> M" using L(1) unfolding M_def by linarith
  have M53: "\<bar>M\<bar> < 2 ^ 53" using L(2) M0 unfolding M_def by linarith
  have rM: "round_double (of_int M) = of_int M" using M53 by (rule round_double_of_int)
  define p where "p = round_double (fr * of_int M)"
  have "0 \<le> fr * of_int M" using F(1) M0 by simp
  then have p0: "0 \<le> p" unfolding p_def by (rule round_double_nonneg)
  have "fr * of_int M \<le> 1 * of_int M" using F(2) M0 by (intro mult_right_mono) simp_all
  then have "fr * of_int M \<le> of_int M" by simp
  then have pM: "p \<le> of_int M" unfolding p_def using M53 by (rule round_double_le_int)
  define j where "j = nat (trunc p)"
  note T = trunc_bounds [OF p0 pM]
  have jl: "j < length allColors" using T unfolding j_def M_def by linarith
  have d: "py_truediv (PFloat (py_float (PInt k))) (PInt (n - 1)) = Inr (PFloat fr)"
    using F(5) by (simp add: fr_def)
  have m: "py_int (py_mul (PFloat fr) (PInt M)) = trunc p"
    by (simp add: p_def rM)
  have g: "getitem allColors (trunc p) = Inr (allColors ! j)"
    using T jl unfolding getitem_def j_def M_def by simp
  have pk: "pick allColors n k = Inr (allColors ! j)"
    unfolding pick_def M_def [symmetric] d by (simp only: bind.simps Let_def m g)
  have z: "j = 0" if "k = 0"
  proof -
    from F(3) [OF that] have "p = of_int 0" by (simp add: p_def round_double_zero)
    then have "trunc p = 0" by (simp only: trunc_of_int)
    then show ?thesis by (simp add: j_def)
  qed
  have l: "j = length allColors - 1" if "k = n - 1"
  proof -
    from F(4) [OF that] have "p = of_int M" by (simp add: p_def rM)
    then have "trunc p = M" by (simp only: trunc_of_int)
    then show ?thesis unfolding j_def M_def by simp
  qed
  show ?thesis
  proof (intro exI conjI impI)
    show "j < length allColors" by (rule jl)
    show "pick allColors n k = Inr (allColors ! j)" by (rule pk)
    show "k = 0 \<Longrightarrow> j = 0" by (rule z)
    show "k = n - 1 \<Longrightarrow> j = length allColors - 1" by (rule l)
  qed
qed

lemma round_double_764: "round_double 764 = 764"
  using round_double_of_int [of 764] by simp

lemma scale_765:
  "scale (PInt a) (PInt b) nInterpolate i =
     Inr (PFloat (round_double (round_double (of_int a)
        + round_double (round_double (round_double (of_int i) / 764)
            * round_double (of_int (b - a))))))"
  by (simp add: scale_def nInterpolate_def round_double_764)

lemma scale_total: "\<exists>v. scale s f nInterpolate i = Inr v"
  by (simp add: scale_def nInterpolate_def round_double_764)

lemma scale_last:
  assumes "\<bar>a\<bar> < 2 ^ 52" and "\<bar>b\<bar> < 2 ^ 52"
  shows "scale (PInt a) (PInt b) nInterpolate 764 = Inr (PFloat (of_int b))"
proof -
  have a: "round_double (of_int a) = of_int a" using assms by (intro round_double_of_int) simp
  have b: "round_double (of_int b) = of_int b" using assms by (intro round_double_of_int) simp
  have d: "round_double (of_int (b - a)) = of_int (b - a)"
    using assms by (intro round_double_of_int) simp
  have s: "(of_int a :: rat) + of_int (b - a) = of_int b" by simp
  have "scale (PInt a) (PInt b) nInterpolate 764 =
      Inr (PFloat (round_double (of_int a + round_double (1 * of_int (b - a)))))"
    unfolding scale_765 a d by (simp add: round_double_764 round_double_one)
  also have "\<dots> = Inr (PFloat (of_int b))" unfolding mult_1 d s b ..
  finally show ?thesis .
qed

lemma scale_between:
  assumes a: "0 \<le> a" "a \<le> 255" and b: "0 \<le> b" "b \<le> 255" and i: "0 \<le> i" "i \<le> 764"
  shows "\<exists>x. scale (PInt a) (PInt b) nInterpolate i = Inr (PFloat x) \<and> 0 \<le> x \<and> x \<le> 255"
proof -
  define fr where "fr = round_double (round_double (of_int i) / 764)"
  define p where "p = round_double (fr * of_int (b - a))"
  define x where "x = round_double (of_int a + p)"
  have ra: "round_double (of_int a) = of_int a" using a by (intro round_double_of_int) simp
  have rd: "round_double (of_int (b - a)) = of_int (b - a)"
    using a b by (intro round_double_of_int) simp
  have sc: "scale (PInt a) (PInt b) nInterpolate i = Inr (PFloat x)"
    unfolding scale_765 ra rd x_def p_def fr_def ..
  have "1 \<le> (764::int)" by simp
  from fraction_bounds(1,2) [OF i this]
  have fr: "0 \<le> fr" "fr \<le> 1" by (simp_all add: fr_def round_double_764)
  have ab: "\<bar>a\<bar> < 2 ^ 53" "\<bar>b\<bar> < 2 ^ 53" "\<bar>b - a\<bar> < 2 ^ 53" "\<bar>0::int\<bar> < 2 ^ 53"
    using a b by simp_all
  have "0 \<le> x \<and> x \<le> 255"
  proof (cases "a \<le> b")
    case True
    then have d: "(0::rat) \<le> of_int (b - a)" by simp
    have "0 \<le> fr * of_int (b - a)" using fr(1) d by simp
    then have p0: "0 \<le> p" unfolding p_def by (rule round_double_nonneg)
    have "fr * of_int (b - a) \<le> 1 * of_int (b - a)" using fr(2) d by (rule mult_right_mono)
    then have "fr * of_int (b - a) \<le> of_int (b - a)" by simp
    then have p1: "p \<le> of_int (b - a)" unfolding p_def using ab(3) by (rule round_double_le_int)
    have "(of_int a :: rat) \<le> of_int a + p" using p0 by simp
    then have "of_int a \<le> x" unfolding x_def using ab(1) by (rule round_double_ge_int)
    moreover have "of_int a + p \<le> of_int b" using p1 by simp
    then have "x \<le> of_int b" unfolding x_def using ab(2) by (rule round_double_le_int)
    moreover have "(0::rat) \<le> of_int a" "(of_int b :: rat) \<le> 255" using a b by simp_all
    ultimately show ?thesis by linarith
  next
    case False
    then have d: "(of_int (b - a) :: rat) \<le> 0" by simp
    have "fr * of_int (b - a) \<le> 0" using fr(1) d by (simp add: mult_nonneg_nonpos)
    then have "p \<le> of_int 0" unfolding p_def using ab(4) by (intro round_double_le_int) simp_all
    then have p0: "p \<le> 0" by simp
    have "1 * of_int (b - a) \<le> fr * of_int (b - a)" using fr(2) d by (rule mult_right_mono_neg)
    then have "of_int (b - a) \<le> fr * of_int (b - a)" by simp
    then have p1: "of_int (b - a) \<le> p" unfolding p_def using ab(3) by (rule round_double_ge_int)
    have "of_int a + p \<le> (of_int a :: rat)" using p0 by simp
    then have "x \<le> of_int a" unfolding x_def using ab(1) by (rule round_double_le_int)
    moreover have "of_int b \<le> of_int a + p" using p1 by simp
    then have "of_int b \<le> x" unfolding x_def using ab(2) by (rule round_double_ge_int)
    moreover have "(0::rat) \<le> of_int b" "(of_int a :: rat) \<le> 255" using a b by simp_all
    ultimately show ?thesis by linarith
  qed
  with sc show ?thesis by blast
qed

lemma getitem_first_three:
  assumes "3 \<le> length p"
  shows "getitem p 0 = Inr (p ! 0)" and "getitem p 1 = Inr (p ! 1)" and "getitem p 2 = Inr (p ! 2)"
  using assms by (auto simp: getitem_def)

lemma interpolate_pair_total:
  assumes "3 \<le> length s" and "3 \<le> length e"
  shows "interpolate_pair s e i =
     Inr (projr (scale (s ! 0) (e ! 0) nInterpolate i),
          projr (scale (s ! 1) (e ! 1) nInterpolate i),
          projr (scale (s ! 2) (e ! 2) nInterpolate i))"
proof -
  obtain r where r: "scale (s ! 0) (e ! 0) nInterpolate i = Inr r" using scale_total by blast
  obtain g where g: "scale (s ! 1) (e ! 1) nInterpolate i = Inr g" using scale_total by blast
  obtain b where b: "scale (s ! 2) (e ! 2) nInterpolate i = Inr b" using scale_total by blast
  show ?thesis
    by (simp only: interpolate_pair_def getitem_first_three [OF assms(1)]
      getitem_first_three [OF assms(2)] bind.simps r g b sum.sel)
qed

lemma pairs_in_list:
  assumes "(s, e) \<in> set (zip (butlast l) (drop 1 l))"
  shows "s \<in> set l" and "e \<in> set l"
proof -
  from assms have "s \<in> set (butlast l)" by (rule set_zip_leftD)
  then show "s \<in> set l" by (rule in_set_butlastD)
  from assms have "e \<in> set (drop 1 l)" by (rule set_zip_rightD)
  then show "e \<in> set l" by (rule in_set_dropD)
qed

lemma all_colors_total:
  assumes "\<forall>p\<in>set l. 3 \<le> length p"
  shows "all_colors l =
     Inr (concat (map (\<lambda>(s, e). map (\<lambda>i. projr (interpolate_pair s e i)) [0..nInterpolate - 1])
                    (zip (butlast l) (drop 1 l))))"
proof -
  have "map_err (\<lambda>(s, e). map_err (interpolate_pair s e) [0..nInterpolate - 1])
          (zip (butlast l) (drop 1 l)) =
        Inr (map (\<lambda>(s, e). map (\<lambda>i. projr (interpolate_pair s e i)) [0..nInterpolate - 1])
          (zip (butlast l) (drop 1 l)))"
  proof (rule map_err_total)
    fix x assume x: "x \<in> set (zip (butlast l) (drop 1 l))"
    obtain s e where se: "x = (s, e)" by (cases x)
    from pairs_in_list [OF x [unfolded se]] assms have le: "3 \<le> length s" "3 \<le> length e"
      by blast+
    have "map_err (interpolate_pair s e) [0..nInterpolate - 1] =
        Inr (map (\<lambda>i. projr (interpolate_pair s e i)) [0..nInterpolate - 1])"
      by (rule map_err_total) (simp only: interpolate_pair_total [OF le] sum.sel)
    then show
      "(case x of (s, e) \<Rightarrow> map_err (interpolate_pair s e) [0..nInterpolate - 1]) =
        Inr (case x of (s, e) \<Rightarrow> map (\<lambda>i. projr (interpolate_pair s e i)) [0..nInterpolate - 1])"
      by (simp only: se prod.case)
  qed
  then show ?thesis by (simp only: all_colors_def bind.simps)
qed

lemma length_segments:
  "length (concat (map (\<lambda>(s, e). map (F s e) js) zs)) = length js * length zs"
  by (induction zs) auto

lemma first_of_segments:
  assumes "zs \<noteq> []" and "js \<noteq> []"
  shows "concat (map (\<lambda>(s, e). map (F s e) js) zs) ! 0 = F (fst (hd zs)) (snd (hd zs)) (hd js)"
proof -
  obtain s e ys where zs: "zs = (s, e) # ys" using assms(1) by (cases zs) auto
  obtain j ks where js: "js = j # ks" using assms(2) by (cases js) auto
  show ?thesis by (simp add: zs js)
qed

lemma last_of_segments:
  assumes "zs \<noteq> []" and "js \<noteq> []"
  shows "last (concat (map (\<lambda>(s, e). map (F s e) js) zs))
     = F (fst (last zs)) (snd (last zs)) (last js)"
proof -
  obtain ys z where zs: "zs = ys @ [z]" using assms(1) by (cases zs rule: rev_cases) auto
  obtain s e where z: "z = (s, e)" by (cases z)
  show ?thesis using assms(2) by (simp add: zs z last_map)
qed

lemma in_segments:
  assumes "x \<in> set (concat (map (\<lambda>(s, e). map (F s e) js) zs))"
  shows "\<exists>s e i. (s, e) \<in> set zs \<and> i \<in> set js \<and> x = F s e i"
proof -
  from assms obtain z where z: "z \<in> set zs" "x \<in> set (case z of (s, e) \<Rightarrow> map (F s e) js)"
    by auto
  obtain s e where se: "z = (s, e)" by (cases z)
  from z(2) obtain i where "i \<in> set js" "x = F s e i" by (auto simp: se)
  with z(1) se show ?thesis by blast
qed

lemma pairs_nonempty:
  assumes "2 \<le> length l"
  shows "zip (butlast l) (drop 1 l) \<noteq> []"
    and "hd (zip (butlast l) (drop 1 l)) = (l ! 0, l ! 1)"
    and "last (zip (butlast l) (drop 1 l)) = (last (butlast l), last l)"
proof -
  obtain p q r where l: "l = p # q # r"
    using assms by (cases l; cases "tl l") auto
  show "zip (butlast l) (drop 1 l) \<noteq> []" by (simp add: l)
  show "hd (zip (butlast l) (drop 1 l)) = (l ! 0, l ! 1)" by (simp add: l)
  have a: "butlast l \<noteq> []" and b: "drop 1 l \<noteq> []" by (simp_all add: l)
  have c: "length (butlast l) = length (drop 1 l)" by simp
  have "last (zip (butlast l) (drop 1 l)) = (last (butlast l), last (drop 1 l))"
    using a b c by (rule last_zip)
  also have "last (drop 1 l) = last l" by (simp add: l)
  finally show "last (zip (butlast l) (drop 1 l)) = (last (butlast l), last l)" .
qed

lemma indices_765:
  "length [0..nInterpolate - 1] = 765" "[0..nInterpolate - 1] \<noteq> []"
  "hd [0..nInterpolate - 1] = 0" "last [0..nInterpolate - 1] = 764"
  "set [0..nInterpolate - 1] = {0..764}"
proof -
  show "length [0..nInterpolate - 1] = 765" by (simp add: nInterpolate_def)
  show ne: "[0..nInterpolate - 1] \<noteq> []" by (simp add: nInterpolate_def)
  show "set [0..nInterpolate - 1] = {0..764}" by (simp add: nInterpolate_def)
  have "[0..nInterpolate - 1] = 0 # [0 + 1..nInterpolate - 1]"
    by (rule upto_rec1) (simp add: nInterpolate_def)
  then show "hd [0..nInterpolate - 1] = 0" by simp
  have "[0..nInterpolate - 1] = [0..nInterpolate - 1 - 1] @ [nInterpolate - 1]"
    by (rule upto_rec2) (simp add: nInterpolate_def)
  then have "last [0..nInterpolate - 1] = nInterpolate - 1" by simp
  then show "last [0..nInterpolate - 1] = 764" by (simp add: nInterpolate_def)
qed

lemma length_pairs: "length (zip (butlast l) (drop 1 l)) = length l - 1"
  by simp

lemma linear_gradient_picks:
  assumes l: "2 \<le> length rgbList" "length rgbList \<le> 2 ^ 43"
    and p: "\<forall>p\<in>set rgbList. 3 \<le> length p" and n: "2 \<le> nColors"
  defines "A \<equiv> concat (map (\<lambda>(s, e). map (\<lambda>i. projr (interpolate_pair s e i)) [0..nInterpolate - 1])
                    (zip (butlast rgbList) (drop 1 rgbList)))"
  shows "\<exists>result. linear_gradient rgbList nColors = Inr result
           \<and> int (length result) = nColors
           \<and> result ! 0 = A ! 0 \<and> result ! nat (nColors - 1) = last A
           \<and> set result \<subseteq> set A"
proof -
  have ac: "all_colors rgbList = Inr A" unfolding A_def using p by (rule all_colors_total)
  have len: "length A = 765 * (length rgbList - 1)"
    unfolding A_def by (simp only: length_segments indices_765(1) length_pairs)
  have L1: "1 \<le> length A" using l(1) unfolding len by simp
  have "765 * (length rgbList - 1) < 765 * 2 ^ 43" using l by simp
  then have "int (length A) < 765 * 2 ^ 43" unfolding len
    by (metis (mono_tags) of_nat_less_iff of_nat_mult of_nat_numeral of_nat_power)
  then have L2: "int (length A) - 1 < 2 ^ 53" by simp
  have Ane: "A \<noteq> []" using L1 by auto
  define g where "g k = projr (pick A nColors k)" for k
  have pk: "\<exists>j<length A. pick A nColors k = Inr (A ! j) \<and> (k = 0 \<longrightarrow> j = 0)
      \<and> (k = nColors - 1 \<longrightarrow> j = length A - 1)" if "k \<in> set [0..nColors - 1]" for k
    using that by (intro pick_in_range [OF L1 L2 n]) simp_all
  have tot: "pick A nColors k = Inr (g k)" if "k \<in> set [0..nColors - 1]" for k
    using pk [OF that] by (auto simp: g_def)
  have res: "linear_gradient rgbList nColors = Inr (map g [0..nColors - 1])"
    unfolding linear_gradient_def ac bind.simps using tot by (rule map_err_total)
  have lr: "int (length (map g [0..nColors - 1])) = nColors" using n by simp
  have k0: "(0::int) \<in> set [0..nColors - 1]" using n by simp
  have kn: "nColors - 1 \<in> set [0..nColors - 1]" using n by simp
  have "[0..nColors - 1] ! 0 = 0" using n nth_upto [of 0 0 "nColors - 1"] by simp
  then have "map g [0..nColors - 1] ! 0 = g 0" using n by (simp add: nth_map)
  moreover have "g 0 = A ! 0" using pk [OF k0] by (auto simp: g_def)
  ultimately have first: "map g [0..nColors - 1] ! 0 = A ! 0" by simp
  have "[0..nColors - 1] ! nat (nColors - 1) = nColors - 1"
    using n nth_upto [of 0 "nat (nColors - 1)" "nColors - 1"] by simp
  then have "map g [0..nColors - 1] ! nat (nColors - 1) = g (nColors - 1)"
    using n by (simp add: nth_map)
  moreover have "g (nColors - 1) = A ! (length A - 1)" using pk [OF kn] by (auto simp: g_def)
  moreover have "A ! (length A - 1) = last A" using Ane by (rule last_conv_nth [symmetric])
  ultimately have lst: "map g [0..nColors - 1] ! nat (nColors - 1) = last A" by simp
  have sub: "set (map g [0..nColors - 1]) \<subseteq> set A"
  proof
    fix x assume "x \<in> set (map g [0..nColors - 1])"
    then obtain k where k: "k \<in> set [0..nColors - 1]" "x = g k" by auto
    from pk [OF k(1)] obtain j where j: "j < length A" "pick A nColors k = Inr (A ! j)" by blast
    from j(2) have "g k = A ! j" by (simp add: g_def)
    with k(2) j(1) show "x \<in> set A" by simp
  qed
  from res lr first lst sub show ?thesis by blast
qed

text \<open>
  Claim C5. For at least two control points, each with three channels, and a count \<open>n\<close> of
  at least 2, \<open>linear_gradient\<close> returns a list of exactly \<open>n\<close> colours. The bound on the
  number of control points keeps the length of \<open>allColors\<close> below \<open>2^53\<close>, where its conversion
  to a float is exact; no list in memory comes near it.
\<close>

theorem linear_gradient_length:
  assumes "2 \<le> length rgbList" and "length rgbList \<le> 2 ^ 43"
    and "\<forall>p\<in>set rgbList. 3 \<le> length p" and "2 \<le> nColors"
  shows "\<exists>result. linear_gradient rgbList nColors = Inr result \<and> int (length result) = nColors"
  using linear_gradient_picks [OF assms] by blast

theorem linear_gradient_length_witness:
  "\<exists>result. linear_gradient [[PInt 0, PInt 0, PInt 0], [PInt 255, PInt 0, PInt 0]] 5 = Inr result
      \<and> int (length result) = 5"
  using linear_gradient_length [of "[[PInt 0, PInt 0, PInt 0], [PInt 255, PInt 0, PInt 0]]" 5]
  by simp

lemma int_rgb_cases:
  assumes "int_rgb p"
  obtains a b c where "p = [PInt a, PInt b, PInt c]" "\<bar>a\<bar> < 2 ^ 52" "\<bar>b\<bar> < 2 ^ 52" "\<bar>c\<bar> < 2 ^ 52"
proof -
  from assms have "length p = 3" and e: "list_all exact_int p" by (simp_all add: int_rgb_def)
  then obtain x y z where p: "p = [x, y, z]" by (auto simp: length_Suc_conv eval_nat_numeral)
  from e p obtain a where a: "x = PInt a" "\<bar>a\<bar> < 2 ^ 52" by (cases x) simp_all
  from e p obtain b where b: "y = PInt b" "\<bar>b\<bar> < 2 ^ 52" by (cases y) simp_all
  from e p obtain c where c: "z = PInt c" "\<bar>c\<bar> < 2 ^ 52" by (cases z) simp_all
  from p a b c show thesis by (intro that [of a b c]) simp_all
qed

lemma int_rgb_length: "int_rgb p \<Longrightarrow> 3 \<le> length p"
  by (simp add: int_rgb_def)

lemma tuple_last:
  assumes "int_rgb s" and "int_rgb e"
  shows "map py_val (channels (projr (interpolate_pair s e 764))) = map py_val e"
proof -
  from assms(1) obtain a b c where s: "s = [PInt a, PInt b, PInt c]"
    "\<bar>a\<bar> < 2 ^ 52" "\<bar>b\<bar> < 2 ^ 52" "\<bar>c\<bar> < 2 ^ 52" by (rule int_rgb_cases)
  from assms(2) obtain a' b' c' where e: "e = [PInt a', PInt b', PInt c']" 
    "\<bar>a'\<bar> < 2 ^ 52" "\<bar>b'\<bar> < 2 ^ 52" "\<bar>c'\<bar> < 2 ^ 52" by (rule int_rgb_cases)
  have "interpolate_pair s e 764 = Inr (PFloat (of_int a'), PFloat (of_int b'), PFloat (of_int c'))"
    unfolding interpolate_pair_total [OF int_rgb_length [OF assms(1)] int_rgb_length [OF assms(2)]]
    using s(2-4) e(2-4) by (simp add: s(1) e(1) scale_last)
  then show ?thesis by (simp add: e)
qed

lemma py_float_error: "\<bar>py_float v - py_val v\<bar> \<le> \<bar>py_val v\<bar> / 2 ^ 53"
proof (cases v)
  case (PInt i)
  with round_double_error [of "of_int i"] show ?thesis by simp
next
  case (PFloat x)
  then show ?thesis by simp
qed

lemma scale_first_number:
  assumes "is_number s"
  shows "scale s f nInterpolate 0 = Inr (PFloat (py_float s))"
  using assms
  by (cases s; cases f)
    (simp_all add: scale_def nInterpolate_def round_double_764 round_double_zero round_double_idem)

lemma scale_last_number:
  "scale s f nInterpolate 764 =
     Inr (PFloat (round_double (py_float s + round_double (raw_range s f))))"
  by (cases s; cases f)
    (simp_all add: scale_def nInterpolate_def round_double_764 round_double_one round_double_idem)

lemma raw_range_error:
  "\<bar>raw_range s f - (py_val f - py_val s)\<bar> \<le> (\<bar>py_val s\<bar> + \<bar>py_val f\<bar>) / 2 ^ 53"
proof -
  have "\<bar>(py_float f - py_float s) - (py_val f - py_val s)\<bar>
      \<le> \<bar>py_float s - py_val s\<bar> + \<bar>py_float f - py_val f\<bar>" by linarith
  also have "\<dots> \<le> \<bar>py_val s\<bar> / 2 ^ 53 + \<bar>py_val f\<bar> / 2 ^ 53"
    using py_float_error [of s] py_float_error [of f] by (rule add_mono)
  finally have "\<bar>(py_float f - py_float s) - (py_val f - py_val s)\<bar>
      \<le> (\<bar>py_val s\<bar> + \<bar>py_val f\<bar>) / 2 ^ 53" by (simp only: add_divide_distrib)
  then show ?thesis by (cases s; cases f) simp_all
qed

lemma bound_arith:
  fixes S X Y :: rat
  assumes "0 \<le> S" and "X \<le> S / 2 ^ 53 + S / 2 ^ 53 + (S + S / 2 ^ 53) / 2 ^ 53"
    and "Y \<le> (S + (S / 2 ^ 53 + S / 2 ^ 53 + (S + S / 2 ^ 53) / 2 ^ 53)) / 2 ^ 53"
  shows "X + Y \<le> S / 2 ^ 50"
  using assms by simp

lemma endpoint_error:
  fixes s f sh D :: rat
  assumes a: "\<bar>sh - s\<bar> \<le> \<bar>s\<bar> / 2 ^ 53"
    and b: "\<bar>D - (f - s)\<bar> \<le> (\<bar>s\<bar> + \<bar>f\<bar>) / 2 ^ 53"
  shows "\<bar>round_double (sh + round_double D) - f\<bar> \<le> (\<bar>s\<bar> + \<bar>f\<bar>) / 2 ^ 50"
proof -
  define S where "S = \<bar>s\<bar> + \<bar>f\<bar>"
  define T where "T = sh + round_double D"
  have S0: "0 \<le> S" by (simp add: S_def)
  have "\<bar>s\<bar> / 2 ^ 53 \<le> S / 2 ^ 53" unfolding S_def by (intro divide_right_mono) simp_all
  with a have a': "\<bar>sh - s\<bar> \<le> S / 2 ^ 53" by (rule order_trans)
  have b': "\<bar>D - (f - s)\<bar> \<le> S / 2 ^ 53" using b by (simp only: S_def)
  have "\<bar>f - s\<bar> \<le> S" by (simp add: S_def)
  with b' have D: "\<bar>D\<bar> \<le> S + S / 2 ^ 53" by linarith
  have "\<bar>round_double D - D\<bar> \<le> \<bar>D\<bar> / 2 ^ 53" by (rule round_double_error)
  also have "\<dots> \<le> (S + S / 2 ^ 53) / 2 ^ 53" using D by (intro divide_right_mono) simp_all
  finally have c: "\<bar>round_double D - D\<bar> \<le> (S + S / 2 ^ 53) / 2 ^ 53" .
  have f: "\<bar>f\<bar> \<le> S" by (simp add: S_def)
  have Tf: "\<bar>T - f\<bar> \<le> S / 2 ^ 53 + S / 2 ^ 53 + (S + S / 2 ^ 53) / 2 ^ 53"
    using a' b' c unfolding T_def by linarith
  then have Tb: "\<bar>T\<bar> \<le> S + (S / 2 ^ 53 + S / 2 ^ 53 + (S + S / 2 ^ 53) / 2 ^ 53)"
    using f by linarith
  have "\<bar>round_double T - T\<bar> \<le> \<bar>T\<bar> / 2 ^ 53" by (rule round_double_error)
  also have "\<dots> \<le> (S + (S / 2 ^ 53 + S / 2 ^ 53 + (S + S / 2 ^ 53) / 2 ^ 53)) / 2 ^ 53"
    using Tb by (intro divide_right_mono) simp_all
  finally have e: "\<bar>round_double T - T\<bar>
      \<le> (S + (S / 2 ^ 53 + S / 2 ^ 53 + (S + S / 2 ^ 53) / 2 ^ 53)) / 2 ^ 53" .
  have "\<bar>round_double T - f\<bar> \<le> \<bar>T - f\<bar> + \<bar>round_double T - T\<bar>" by linarith
  also have "\<dots> \<le> S / 2 ^ 50" using S0 Tf e by (rule bound_arith)
  finally have "\<bar>round_double T - f\<bar> \<le> S / 2 ^ 50" .
  then show ?thesis by (simp only: T_def S_def)
qed

lemma scale_last_close:
  "\<exists>v. scale s f nInterpolate 764 = Inr (PFloat v)
       \<and> \<bar>v - py_val f\<bar> \<le> (\<bar>py_val s\<bar> + \<bar>py_val f\<bar>) / 2 ^ 50"
  using endpoint_error [OF py_float_error raw_range_error, of s f]
  by (simp only: scale_last_number) blast


lemma rgb_point_cases:
  assumes "rgb_point p"
  obtains x y z where "p = [x, y, z]" "is_number x" "is_number y" "is_number z"
proof -
  from assms have "length p = 3" and e: "list_all is_number p" by (simp_all add: rgb_point_def)
  then obtain x y z where p: "p = [x, y, z]" by (auto simp: length_Suc_conv eval_nat_numeral)
  with e show thesis by (intro that [of x y z]) simp_all
qed

lemma rgb_point_length: "rgb_point p \<Longrightarrow> 3 \<le> length p"
  by (simp add: rgb_point_def)

lemma int_rgb_float:
  assumes "int_rgb p"
  shows "map py_float p = map py_val p"
proof -
  from assms obtain a b c where p: "p = [PInt a, PInt b, PInt c]"
    "\<bar>a\<bar> < 2 ^ 52" "\<bar>b\<bar> < 2 ^ 52" "\<bar>c\<bar> < 2 ^ 52" by (rule int_rgb_cases)
  have "round_double (of_int a) = of_int a" "round_double (of_int b) = of_int b"
    "round_double (of_int c) = of_int c"
    using p(2-4) by (simp_all add: round_double_of_int)
  then show ?thesis by (simp add: p(1))
qed

lemma tuple_first_number:
  assumes "rgb_point s" and "3 \<le> length e"
  shows "map py_val (channels (projr (interpolate_pair s e 0))) = map py_float s"
proof -
  from assms(1) obtain x y z where s: "s = [x, y, z]" "is_number x" "is_number y" "is_number z"
    by (rule rgb_point_cases)
  have "interpolate_pair s e 0 = Inr (PFloat (py_float x), PFloat (py_float y), PFloat (py_float z))"
    unfolding interpolate_pair_total [OF rgb_point_length [OF assms(1)] assms(2)]
    using s(2-4) by (simp add: s(1) scale_first_number)
  then show ?thesis by (simp add: s(1))
qed

lemma tuple_last_close:
  assumes "rgb_point s" and "rgb_point e" and "c < 3"
  shows "\<bar>py_val (channels (projr (interpolate_pair s e 764)) ! c) - py_val (e ! c)\<bar>
     \<le> (\<bar>py_val (s ! c)\<bar> + \<bar>py_val (e ! c)\<bar>) / 2 ^ 50"
proof -
  obtain v where v: "scale (s ! c) (e ! c) nInterpolate 764 = Inr (PFloat v)"
    "\<bar>v - py_val (e ! c)\<bar> \<le> (\<bar>py_val (s ! c)\<bar> + \<bar>py_val (e ! c)\<bar>) / 2 ^ 50"
    using scale_last_close [of "s ! c" "e ! c"] by blast
  from assms(3) have "c = 0 \<or> c = 1 \<or> c = 2" by arith
  then have "channels (projr (interpolate_pair s e 764)) ! c
      = projr (scale (s ! c) (e ! c) nInterpolate 764)"
    unfolding interpolate_pair_total [OF rgb_point_length [OF assms(1)] rgb_point_length [OF assms(2)]]
    by (elim disjE) simp_all
  with v show ?thesis by simp
qed

lemma all_less_three: "(\<forall>c<3. P c) \<longleftrightarrow> P (0::nat) \<and> P 1 \<and> P 2"
proof
  assume "\<forall>c<3. P c" then show "P 0 \<and> P 1 \<and> P 2" by simp
next
  assume p: "P 0 \<and> P 1 \<and> P 2"
  show "\<forall>c<3. P c"
  proof (intro allI impI)
    fix c :: nat assume "c < 3"
    then have "c = 0 \<or> c = 1 \<or> c = 2" by arith
    with p show "P c" by auto
  qed
qed

lemma round_double_half: "round_double (1 / 2) = 1 / 2"
  using round_double_scaled_int [of 1 "- 1"] by (simp add: power_int_minus_divide)

text \<open>
  The last colour is not always equal to the last control point: between the floats \<open>0.3\<close>
  and \<open>0.9\<close> the subtraction gives \<open>0.6000000000000001\<close> and the addition
  \<open>0.9000000000000001\<close>.
\<close>

lemma three_tenths_double:
  "round_double (5404319552844595 / 18014398509481984) = 5404319552844595 / 18014398509481984"
  using round_double_scaled_int [of 5404319552844595 "- 54"] by (simp add: power_int_minus_divide)

lemma nine_tenths_double:
  "round_double (8106479329266893 / 9007199254740992) = 8106479329266893 / 9007199254740992"
  using round_double_scaled_int [of 8106479329266893 "- 53"] by (simp add: power_int_minus_divide)

lemma range_rounds_up:
  "round_double (8106479329266893 / 9007199254740992 - 5404319552844595 / 18014398509481984)
     = 1351079888211149 / 2251799813685248"
  by (subst round_double_below_one)
    (simp_all add: round_half_even_def Let_def floor_rat_numeral_div)

lemma sum_rounds_up:
  "round_double (5404319552844595 / 18014398509481984 + 1351079888211149 / 2251799813685248)
     = 4053239664633447 / 4503599627370496"
  by (subst round_double_below_one)
    (simp_all add: round_half_even_def Let_def floor_rat_numeral_div)

lemma scale_last_inexact:
  "is_number (PFloat (5404319552844595 / 18014398509481984))
   \<and> is_number (PFloat (8106479329266893 / 9007199254740992))
   \<and> scale (PFloat (5404319552844595 / 18014398509481984))
        (PFloat (8106479329266893 / 9007199254740992)) nInterpolate 764
      = Inr (PFloat (4053239664633447 / 4503599627370496))
   \<and> (4053239664633447 / 4503599627370496 :: rat) \<noteq> 8106479329266893 / 9007199254740992"
proof (intro conjI)
  show "is_number (PFloat (5404319552844595 / 18014398509481984))"
    by (simp add: three_tenths_double)
  show "is_number (PFloat (8106479329266893 / 9007199254740992))"
    by (simp add: nine_tenths_double)
  show "scale (PFloat (5404319552844595 / 18014398509481984))
        (PFloat (8106479329266893 / 9007199254740992)) nInterpolate 764
      = Inr (PFloat (4053239664633447 / 4503599627370496))"
    unfolding scale_last_number raw_range.simps py_float.simps range_rounds_up sum_rounds_up ..
  show "(4053239664633447 / 4503599627370496 :: rat) \<noteq> 8106479329266893 / 9007199254740992"
    by simp
qed

text \<open>
  Claim C4. For at least two control points, each of three channels that are integers or
  floats, and a count \<open>n\<close> of at least 2, \<open>linear_gradient\<close> returns a list whose first colour
  is the first control point and whose colour at index \<open>n - 1\<close> is the last control point, up
  to floating point:
  \<^item> every channel of the first colour is exactly the float of the channel of the first
    control point;
  \<^item> every channel of the last colour differs from the channel \<open>f\<close> of the last control
    point by at most \<open>(|s| + |f|) / 2^50\<close>, where \<open>s\<close> is the channel of the control point
    before it: the code computes \<open>s + 1.0 * (f - s)\<close>, and the subtraction and the addition
    round;
  \<^item> with integer channels below \<open>2^52\<close> in magnitude nothing rounds, and both colours have
    exactly the channel values of the control points.
\<close>

theorem linear_gradient_endpoints:
  assumes "2 \<le> length rgbList" and "length rgbList \<le> 2 ^ 43"
    and "\<forall>p\<in>set rgbList. rgb_point p" and "2 \<le> nColors"
  shows "\<exists>result. linear_gradient rgbList nColors = Inr result
     \<and> map py_val (channels (result ! 0)) = map py_float (hd rgbList)
     \<and> (\<forall>c<3. \<bar>py_val (channels (result ! nat (nColors - 1)) ! c) - py_val (last rgbList ! c)\<bar>
            \<le> (\<bar>py_val (last (butlast rgbList) ! c)\<bar> + \<bar>py_val (last rgbList ! c)\<bar>) / 2 ^ 50)
     \<and> (int_rgb (hd rgbList) \<longrightarrow>
           map py_val (channels (result ! 0)) = map py_val (hd rgbList))
     \<and> (int_rgb (last (butlast rgbList)) \<and> int_rgb (last rgbList) \<longrightarrow>
           map py_val (channels (result ! nat (nColors - 1))) = map py_val (last rgbList))"
proof -
  let ?zs = "zip (butlast rgbList) (drop 1 rgbList)"
  let ?F = "\<lambda>s e i. projr (interpolate_pair s e i)"
  let ?A = "concat (map (\<lambda>(s, e). map (?F s e) [0..nInterpolate - 1]) ?zs)"
  have three: "\<forall>p\<in>set rgbList. 3 \<le> length p" using assms(3) rgb_point_length by blast
  from linear_gradient_picks [OF assms(1,2) three assms(4)]
  obtain result where r: "linear_gradient rgbList nColors = Inr result"
    "result ! 0 = ?A ! 0" "result ! nat (nColors - 1) = last ?A" by blast
  note P = pairs_nonempty [OF assms(1)]
  obtain p q r where pqr: "rgbList = p # q # r"
    using assms(1) by (cases rgbList; cases "tl rgbList") auto
  have ne: "rgbList \<noteq> []" "butlast rgbList \<noteq> []" by (simp_all add: pqr)
  have i0: "rgb_point (rgbList ! 0)" "3 \<le> length (rgbList ! 1)"
    using assms(3) three by (simp_all add: pqr)
  have "last (butlast rgbList) \<in> set (butlast rgbList)" using ne(2) by (rule last_in_set)
  then have "last (butlast rgbList) \<in> set rgbList" by (rule in_set_butlastD)
  then have il: "rgb_point (last (butlast rgbList))" "rgb_point (last rgbList)"
    using assms(3) ne(1) by simp_all
  have "?A ! 0 = ?F (rgbList ! 0) (rgbList ! 1) 0"
    using first_of_segments [OF P(1) indices_765(2), of ?F]
    by (simp only: P(2) indices_765(3) fst_conv snd_conv)
  then have "map py_val (channels (?A ! 0)) = map py_float (hd rgbList)"
    using tuple_first_number [OF i0] ne(1) by (simp add: hd_conv_nth)
  then have a: "map py_val (channels (result ! 0)) = map py_float (hd rgbList)"
    by (simp only: r(2))
  have L: "last ?A = ?F (last (butlast rgbList)) (last rgbList) 764"
    using last_of_segments [OF P(1) indices_765(2), of ?F]
    by (simp only: P(3) indices_765(4) fst_conv snd_conv)
  have b: "\<forall>c<3. \<bar>py_val (channels (result ! nat (nColors - 1)) ! c) - py_val (last rgbList ! c)\<bar>
      \<le> (\<bar>py_val (last (butlast rgbList) ! c)\<bar> + \<bar>py_val (last rgbList ! c)\<bar>) / 2 ^ 50"
    unfolding r(3) L using tuple_last_close [OF il] by blast
  have c: "map py_val (channels (result ! 0)) = map py_val (hd rgbList)" if "int_rgb (hd rgbList)"
    using a int_rgb_float [OF that] by simp
  have d: "map py_val (channels (result ! nat (nColors - 1))) = map py_val (last rgbList)"
    if "int_rgb (last (butlast rgbList)) \<and> int_rgb (last rgbList)"
    unfolding r(3) L using tuple_last that by blast
  from r(1) a b c d show ?thesis by blast
qed

theorem linear_gradient_endpoints_witness:
  "\<exists>result. linear_gradient [[PInt 0, PFloat (1 / 2), PInt 0], [PInt 255, PInt 0, PFloat (1 / 2)]] 5
        = Inr result
      \<and> map py_val (channels (result ! 0)) = [0, 1 / 2, 0]
      \<and> \<bar>py_val (channels (result ! 4) ! 0) - 255\<bar> \<le> 255 / 2 ^ 50
      \<and> \<bar>py_val (channels (result ! 4) ! 1) - 0\<bar> \<le> (1 / 2) / 2 ^ 50
      \<and> \<bar>py_val (channels (result ! 4) ! 2) - 1 / 2\<bar> \<le> (1 / 2) / 2 ^ 50"
  using linear_gradient_endpoints
    [of "[[PInt 0, PFloat (1 / 2), PInt 0], [PInt 255, PInt 0, PFloat (1 / 2)]]" 5]
  by (simp add: rgb_point_def round_double_half round_double_zero int_rgb_def
    all_less_three mult.commute)
section \<open>Properties of the catalog\<close>

text \<open>
  Claim C7. For a count of at most 6, \<open>color_brewer\<close> returns the catalog's entry for the name
  as it is: the seven colours of \<open>BuGn\<close> for \<open>color_brewer('BuGn', 6)\<close>, and \<open>None\<close> for a name
  the catalog does not have.
\<close>

theorem color_brewer_pass_through:
  "(n \<le> 6 \<longrightarrow> color_brewer name n = Inr (schemes name))
   \<and> color_brewer (ustr ''BuGn'') 6 =
        Inr (Some (map ustr [''#EDF8FB'', ''#CCECE6'', ''#CCECE6'', ''#66C2A4'',
          ''#41AE76'', ''#238B45'', ''#005824'']))
   \<and> (n \<le> 6 \<and> schemes name = None \<longrightarrow> color_brewer name n = Inr None)
   \<and> color_brewer (ustr ''NotAScheme'') 6 = Inr None"
proof (intro conjI impI)
  show small: "color_brewer name n = Inr (schemes name)" if "n \<le> 6" for name n
    using that by (simp add: color_brewer_def maximum_n_def)
  show "color_brewer (ustr ''BuGn'') 6 =
        Inr (Some (map ustr [''#EDF8FB'', ''#CCECE6'', ''#CCECE6'', ''#66C2A4'',
          ''#41AE76'', ''#238B45'', ''#005824'']))"
    by (simp add: small schemes_def scheme_table_def ustr_def)
  show "color_brewer name n = Inr None" if "n \<le> 6 \<and> schemes name = None"
    using that by (simp add: small)
  show "color_brewer (ustr ''NotAScheme'') 6 = Inr None"
    by (simp add: small schemes_def scheme_table_def ustr_def)
qed

theorem color_brewer_pass_through_witness:
  "color_brewer (ustr ''YlGn'') 3 = Inr (schemes (ustr ''YlGn''))
   \<and> color_brewer (ustr ''Nope'') 0 = Inr None"
  using color_brewer_pass_through [of 3 "ustr ''YlGn''"]
    color_brewer_pass_through [of 0 "ustr ''Nope''"]
  by (simp add: schemes_def scheme_table_def ustr_def)

lemma round_double_16: "round_double 16 = 16"
  using round_double_of_int [of 16] by simp

lemma colorval_to_hexval_float:
  assumes "0 \<le> v" and "v \<le> 255"
  shows "\<exists>c d. colorval_to_hexval (PFloat v) = Inr [c, d] \<and> is_hex_upper c \<and> is_hex_upper d"
proof -
  define q where "q = round_double (v / 16)"
  define m where "m = fmod v 16"
  have "0 \<le> v / 16" using assms(1) by simp
  then have q0: "0 \<le> q" unfolding q_def by (rule round_double_nonneg)
  have "v / 16 \<le> of_int 255 / 16" using assms(2) by simp
  then have "q \<le> round_double (of_int 255 / 16)" unfolding q_def by (rule round_double_mono)
  also have "\<dots> = of_int 255 / 16" by (rule round_double_of_int_div16) simp
  finally have q1: "q \<le> 255 / 16" by simp
  have tq: "trunc q = \<lfloor>q\<rfloor>" using q0 by (simp add: trunc_def)
  have "\<lfloor>q\<rfloor> \<le> \<lfloor>255 / 16 :: rat\<rfloor>" using q1 by (rule floor_mono)
  also have "\<lfloor>255 / 16 :: rat\<rfloor> = 15" by (simp add: floor_eq_iff) 
  finally have hi: "0 \<le> trunc q" "trunc q \<le> 15" using q0 by (simp_all add: tq)
  have tv: "trunc (v / 16) = \<lfloor>v / 16\<rfloor>" using assms(1) by (simp add: trunc_def)
  have f1: "of_int \<lfloor>v / 16\<rfloor> \<le> v / 16" by (rule of_int_floor_le)
  have f2: "v / 16 < of_int \<lfloor>v / 16\<rfloor> + 1" by linarith
  have mdef: "m = v - 16 * of_int \<lfloor>v / 16\<rfloor>" by (simp add: m_def fmod_def tv)
  have m0: "0 \<le> m" using f1 unfolding mdef by linarith
  have m1: "m < 16" using f2 unfolding mdef by linarith
  have fr: "float_rem v 16 = m" using m0 by (simp add: float_rem_def m_def [symmetric])
  have tm: "trunc m = \<lfloor>m\<rfloor>" using m0 by (simp add: trunc_def)
  have "\<lfloor>m\<rfloor> < 16" using m1 by (simp add: floor_less_iff)
  then have lo: "0 \<le> trunc m" "trunc m \<le> 15" using m0 by (simp_all add: tm)
  have d: "py_truediv (PFloat v) (PInt 16) = Inr (PFloat q)"
    by (simp add: q_def round_double_16)
  have r: "py_mod (PFloat v) (PInt 16) = Inr (PFloat m)"
    by (simp add: round_double_16 fr)
  have "colorval_to_hexval (PFloat v) =
      Inr [hexdigits ! nat (trunc q), hexdigits ! nat (trunc m)]"
    unfolding colorval_to_hexval_def d r
    by (simp add: nibble(1) [OF hi] nibble(1) [OF lo])
  with nibble(3) [OF hi] nibble(3) [OF lo] show ?thesis by blast
qed

lemma rgb_to_hex_floats:
  assumes "0 \<le> x \<and> x \<le> 255" and "0 \<le> y \<and> y \<le> 255" and "0 \<le> z \<and> z \<le> 255"
  shows "\<exists>h. rgb_to_hex (channels (PFloat x, PFloat y, PFloat z)) = Inr h \<and> wf_hex h"
proof -
  from assms(1) obtain a b where a: "colorval_to_hexval (PFloat x) = Inr [a, b]"
    "is_hex_upper a" "is_hex_upper b" using colorval_to_hexval_float by blast
  from assms(2) obtain c d where c: "colorval_to_hexval (PFloat y) = Inr [c, d]"
    "is_hex_upper c" "is_hex_upper d" using colorval_to_hexval_float by blast
  from assms(3) obtain e f where e: "colorval_to_hexval (PFloat z) = Inr [e, f]"
    "is_hex_upper e" "is_hex_upper f" using colorval_to_hexval_float by blast
  have "rgb_to_hex (channels (PFloat x, PFloat y, PFloat z)) = Inr [35, a, b, c, d, e, f]"
    by (simp add: rgb_to_hex_def ustr_hash a(1) c(1) e(1))
  moreover have "wf_hex [35, a, b, c, d, e, f]"
    using a c e by (simp add: wf_hex_def ustr_hash)
  ultimately show ?thesis by blast
qed

lemma byte_rgb_cases:
  assumes "byte_rgb p"
  obtains a b c where "p = [PInt a, PInt b, PInt c]"
    "0 \<le> a \<and> a \<le> 255" "0 \<le> b \<and> b \<le> 255" "0 \<le> c \<and> c \<le> 255"
proof -
  from assms have "length p = 3" and e: "list_all byte_int p" by (simp_all add: byte_rgb_def)
  then obtain x y z where p: "p = [x, y, z]" by (auto simp: length_Suc_conv eval_nat_numeral)
  from e p obtain a where a: "x = PInt a" "0 \<le> a \<and> a \<le> 255" by (cases x) simp_all
  from e p obtain b where b: "y = PInt b" "0 \<le> b \<and> b \<le> 255" by (cases y) simp_all
  from e p obtain c where c: "z = PInt c" "0 \<le> c \<and> c \<le> 255" by (cases z) simp_all
  from p a b c show thesis by (intro that [of a b c]) simp_all
qed

lemma tuple_in_range:
  assumes "byte_rgb s" and "byte_rgb e" and i: "0 \<le> i" "i \<le> 764"
  shows "\<exists>h. rgb_to_hex (channels (projr (interpolate_pair s e i))) = Inr h \<and> wf_hex h"
proof -
  from assms(1) obtain a b c where s: "s = [PInt a, PInt b, PInt c]"
    "0 \<le> a \<and> a \<le> 255" "0 \<le> b \<and> b \<le> 255" "0 \<le> c \<and> c \<le> 255" by (rule byte_rgb_cases)
  from assms(2) obtain a' b' c' where e: "e = [PInt a', PInt b', PInt c']"
    "0 \<le> a' \<and> a' \<le> 255" "0 \<le> b' \<and> b' \<le> 255" "0 \<le> c' \<and> c' \<le> 255" by (rule byte_rgb_cases)
  from scale_between [of a a' i] s(2) e(2) i obtain x where
    x: "scale (PInt a) (PInt a') nInterpolate i = Inr (PFloat x)" "0 \<le> x \<and> x \<le> 255" by blast
  from scale_between [of b b' i] s(3) e(3) i obtain y where
    y: "scale (PInt b) (PInt b') nInterpolate i = Inr (PFloat y)" "0 \<le> y \<and> y \<le> 255" by blast
  from scale_between [of c c' i] s(4) e(4) i obtain z where
    z: "scale (PInt c) (PInt c') nInterpolate i = Inr (PFloat z)" "0 \<le> z \<and> z \<le> 255" by blast
  have l: "3 \<le> length s" "3 \<le> length e" by (simp_all add: s(1) e(1))
  have "projr (interpolate_pair s e i) = (PFloat x, PFloat y, PFloat z)"
    unfolding interpolate_pair_total [OF l] by (simp add: s(1) e(1) x(1) y(1) z(1))
  with rgb_to_hex_floats [OF x(2) y(2) z(2)] show ?thesis by simp
qed

lemma wf_hex_decodes:
  assumes "wf_hex h"
  shows "\<exists>p. hex_to_rgb h = Inr p \<and> byte_rgb p"
proof -
  from assms obtain ds where h: "h = 35 # ds" "length ds = 6" "list_all is_hex_upper ds"
    by (auto simp: wf_hex_def ustr_hash split: list.splits)
  from h(2) obtain a b c d e f where ds: "ds = [a, b, c, d, e, f]"
    by (auto simp: length_Suc_conv eval_nat_numeral)
  with h(3) have u: "is_hex_upper a" "is_hex_upper b" "is_hex_upper c"
    "is_hex_upper d" "is_hex_upper e" "is_hex_upper f" by simp_all
  from hexval_to_colorval_good [OF u(1,2)] obtain r where r:
    "hexval_to_colorval [a, b] = Inr (PInt r)" "0 \<le> r" "r \<le> 255" by blast
  from hexval_to_colorval_good [OF u(3,4)] obtain g where g:
    "hexval_to_colorval [c, d] = Inr (PInt g)" "0 \<le> g" "g \<le> 255" by blast
  from hexval_to_colorval_good [OF u(5,6)] obtain bl where bl:
    "hexval_to_colorval [e, f] = Inr (PInt bl)" "0 \<le> bl" "bl \<le> 255" by blast
  have "hex_to_rgb h = Inr [PInt r, PInt g, PInt bl]"
    by (simp add: hex_to_rgb_pairs strip_hash_def ustr_hash h(1) ds r(1) g(1) bl(1))
  moreover have "byte_rgb [PInt r, PInt g, PInt bl]"
    using r g bl by (simp add: byte_rgb_def)
  ultimately show ?thesis by blast
qed

lemma catalog_table_wf:
  "list_all (\<lambda>(name, hex_codes). length hex_codes = 7 \<and> list_all wf_hex hex_codes) scheme_table"
  by code_simp

lemma catalog_wf:
  assumes "schemes name = Some hex_codes"
  shows "length hex_codes = 7" and "list_all wf_hex hex_codes"
proof -
  from assms have "(name, hex_codes) \<in> set scheme_table"
    unfolding schemes_def by (rule map_of_SomeD)
  with catalog_table_wf have "length hex_codes = 7 \<and> list_all wf_hex hex_codes"
    by (auto simp: list_all_iff)
  then show "length hex_codes = 7" and "list_all wf_hex hex_codes" by simp_all
qed


lemma color_brewer_interpolated:
  assumes known: "schemes name = Some hex_codes" and n: "6 < n" "n \<le> 253"
  shows "\<exists>cs. color_brewer name n = Inr (Some cs) \<and> list_all wf_hex cs \<and> int (length cs) = n"
proof -
  note C = catalog_wf [OF known]
  define pts where "pts = map (\<lambda>h. projr (hex_to_rgb h)) hex_codes"
  have dec: "hex_to_rgb h = Inr (projr (hex_to_rgb h)) \<and> byte_rgb (projr (hex_to_rgb h))"
    if "h \<in> set hex_codes" for h
  proof -
    from that C(2) have "wf_hex h" by (simp add: list_all_iff)
    from wf_hex_decodes [OF this] show ?thesis by auto
  qed
  have d: "map_err hex_to_rgb hex_codes = Inr pts"
    unfolding pts_def using dec by (intro map_err_total) simp
  have bytes: "\<forall>p\<in>set pts. byte_rgb p" using dec by (auto simp: pts_def)
  then have three: "\<forall>p\<in>set pts. 3 \<le> length p" by (auto simp: byte_rgb_def)
  have len: "2 \<le> length pts" "length pts \<le> 2 ^ 43" by (simp_all add: pts_def C(1))
  have n2: "2 \<le> n" using n by simp
  let ?zs = "zip (butlast pts) (drop 1 pts)"
  let ?F = "\<lambda>s e i. projr (interpolate_pair s e i)"
  let ?A = "concat (map (\<lambda>(s, e). map (?F s e) [0..nInterpolate - 1]) ?zs)"
  from linear_gradient_picks [OF len three n2]
  obtain result where r: "linear_gradient pts n = Inr result" "int (length result) = n"
    "set result \<subseteq> set ?A" by blast
  define enc where "enc t = projr (rgb_to_hex (channels t))" for t
  have ok: "rgb_to_hex (channels t) = Inr (enc t) \<and> wf_hex (enc t)" if "t \<in> set result" for t
  proof -
    from that r(3) have "t \<in> set ?A" by blast
    from in_segments [OF this] obtain s e i where
      sei: "(s, e) \<in> set ?zs" "i \<in> set [0..nInterpolate - 1]" "t = ?F s e i" by blast
    from pairs_in_list [OF sei(1)] bytes have b: "byte_rgb s" "byte_rgb e" by blast+
    from sei(2) have "i \<in> {0..764}" by (simp only: indices_765(5))
    then have i: "0 \<le> i" "i \<le> 764" by simp_all
    from tuple_in_range [OF b i] show ?thesis by (auto simp: enc_def sei(3))
  qed
  have e: "map_err (\<lambda>rgb_code. rgb_to_hex (channels rgb_code)) result = Inr (map enc result)"
    using ok by (intro map_err_total) simp
  have "color_brewer name n = Inr (Some (map enc result))"
    using n by (simp add: color_brewer_def maximum_n_def known d r(1) e)
  moreover have "list_all wf_hex (map enc result)" using ok by (simp add: list_all_iff)
  moreover have "int (length (map enc result)) = n" using r(2) by simp
  ultimately show ?thesis by blast
qed

text \<open>
  Claim C10. For a name of the catalog and a count above 6 and at most 253, every string
  \<open>color_brewer\<close> returns is \<open>#\<close> followed by exactly six characters among the digits and
  the upper case letters \<open>A\<close> to \<open>F\<close>. The interpolated channels are floats between 0 and
  255: rounding is monotone and exact on the integers, so it cannot take a channel out of
  the range its two control points span.
\<close>

theorem color_brewer_well_formed:
  assumes "schemes name \<noteq> None" and "6 < n" and "n \<le> 253"
  shows "\<exists>cs. color_brewer name n = Inr (Some cs) \<and> list_all wf_hex cs"
proof -
  from assms(1) obtain hex_codes where "schemes name = Some hex_codes" by blast
  from color_brewer_interpolated [OF this assms(2,3)] show ?thesis by blast
qed

theorem color_brewer_well_formed_witness:
  "\<exists>cs. color_brewer (ustr ''BuGn'') 9 = Inr (Some cs) \<and> list_all wf_hex cs"
  using color_brewer_well_formed [of "ustr ''BuGn''" 9]
  by (simp add: schemes_def scheme_table_def ustr_def)

text \<open>
  Claim C6. \<open>color_brewer\<close> raises the \<open>ValueError\<close> of its size check exactly when the count
  exceeds 253, whatever the name; for every count up to 253 it returns without raising.
\<close>

theorem color_brewer_range_error:
  "(color_brewer name n = Inl ValueError \<longleftrightarrow> 253 < n)
   \<and> (n \<le> 253 \<longrightarrow> (\<exists>r. color_brewer name n = Inr r))"
proof -
  have big: "color_brewer name n = Inl ValueError" if "253 < n"
    using that by (simp add: color_brewer_def maximum_n_def)
  have ok: "\<exists>r. color_brewer name n = Inr r" if le: "n \<le> 253"
  proof (cases "6 < n")
    case False
    with le show ?thesis by (simp add: color_brewer_def maximum_n_def)
  next
    case True
    show ?thesis
    proof (cases "schemes name")
      case None
      with True le show ?thesis by (simp add: color_brewer_def maximum_n_def)
    next
      case (Some hex_codes)
      from color_brewer_interpolated [OF this True le] show ?thesis by blast
    qed
  qed
  have "\<not> 253 < n \<Longrightarrow> color_brewer name n \<noteq> Inl ValueError" using ok [of ] by auto
  with big ok show ?thesis by blast
qed

theorem color_brewer_range_error_witness:
  "color_brewer (ustr ''NotAScheme'') 254 = Inl ValueError
   \<and> (\<exists>r. color_brewer (ustr ''NotAScheme'') 253 = Inr r)"
  using color_brewer_range_error [of "ustr ''NotAScheme''" 254]
    color_brewer_range_error [of "ustr ''NotAScheme''" 253] by simp
section \<open>The legend scaler against its reference definition\<close>






















section \<open>Properties of the quantile rounding helper\<close>


















end
